theory Spec2Isabelle
  imports Complex_Main
begin

section \<open>JavaScript numbers\<close>

text \<open>
  The pipeline computes on JavaScript numbers, which are IEEE doubles. A finite number is
  modelled by the real it denotes; the three non-finite values that a division by zero
  produces are kept, so that every division of the source is a branch of the model:
  \<open>x / 0\<close> is \<open>NaN\<close> for \<open>x = 0\<close> and an infinity otherwise. The sign of zero is not
  modelled.
\<close>

datatype jsnum = Num real | PosInf | NegInf | NaN

fun jneg :: "jsnum \<Rightarrow> jsnum" where
  "jneg (Num a) = Num (- a)"
| "jneg PosInf = NegInf"
| "jneg NegInf = PosInf"
| "jneg NaN = NaN"

fun jadd :: "jsnum \<Rightarrow> jsnum \<Rightarrow> jsnum" where
  "jadd (Num a) (Num b) = Num (a + b)"
| "jadd NaN _ = NaN"
| "jadd _ NaN = NaN"
| "jadd PosInf NegInf = NaN"
| "jadd NegInf PosInf = NaN"
| "jadd PosInf _ = PosInf"
| "jadd _ PosInf = PosInf"
| "jadd NegInf _ = NegInf"
| "jadd _ NegInf = NegInf"

definition jsub :: "jsnum \<Rightarrow> jsnum \<Rightarrow> jsnum" where
  "jsub x y = jadd x (jneg y)"

text \<open>The sign of a number, as an infinity of that sign (\<open>NaN\<close> for zero and \<open>NaN\<close>).\<close>

fun jsign :: "jsnum \<Rightarrow> jsnum" where
  "jsign (Num a) = (if a = 0 then NaN else if 0 < a then PosInf else NegInf)"
| "jsign x = x"

fun jmul :: "jsnum \<Rightarrow> jsnum \<Rightarrow> jsnum" where
  "jmul (Num a) (Num b) = Num (a * b)"
| "jmul NaN _ = NaN"
| "jmul _ NaN = NaN"
| "jmul PosInf y = jsign y"
| "jmul NegInf y = jneg (jsign y)"
| "jmul x PosInf = jsign x"
| "jmul x NegInf = jneg (jsign x)"

fun jdiv :: "jsnum \<Rightarrow> jsnum \<Rightarrow> jsnum" where
  "jdiv (Num a) (Num b) = (if b = 0 then jsign (Num a) else Num (a / b))"
| "jdiv NaN _ = NaN"
| "jdiv _ NaN = NaN"
| "jdiv (Num a) _ = Num 0"
| "jdiv PosInf (Num b) = (if 0 \<le> b then PosInf else NegInf)"
| "jdiv NegInf (Num b) = (if 0 \<le> b then NegInf else PosInf)"
| "jdiv _ _ = NaN"

fun jsqrt :: "jsnum \<Rightarrow> jsnum" where
  "jsqrt (Num a) = (if a < 0 then NaN else Num (sqrt a))"
| "jsqrt PosInf = PosInf"
| "jsqrt _ = NaN"

fun jabs :: "jsnum \<Rightarrow> jsnum" where
  "jabs (Num a) = Num \<bar>a\<bar>"
| "jabs NaN = NaN"
| "jabs _ = PosInf"

text \<open>
  Rounding. An arithmetic operation of the program returns the double nearest to the exact
  result, the one with an even significand on a tie. \<open>rne\<close> rounds a real to the nearest
  integer, ties to even; \<open>expo x\<close> is the binary exponent of \<open>x\<close>, \<open>ulp x\<close> the distance
  between the doubles around \<open>x\<close> (53 significant bits), and \<open>fl64 x\<close> the double nearest
  to \<open>x\<close>. Gradual underflow (magnitudes below \<open>2^-1022\<close>) and overflow (magnitudes of
  \<open>2^1024\<close> and more) are left out.
\<close>

definition rne :: "real \<Rightarrow> int" where
  "rne y = (let f = \<lfloor>y\<rfloor>; d = y - of_int f
            in if d < 1 / 2 then f else if 1 / 2 < d then f + 1
               else if even f then f else f + 1)"

definition expo :: "real \<Rightarrow> int" where
  "expo x = \<lfloor>log 2 \<bar>x\<bar>\<rfloor>"

definition ulp :: "real \<Rightarrow> real" where
  "ulp x = 2 powr of_int (expo x - 52)"

definition fl64 :: "real \<Rightarrow> real" where
  "fl64 x = (if x = 0 then 0 else sgn x * (of_int (rne (\<bar>x\<bar> / ulp x)) * ulp x))"

fun jround :: "jsnum \<Rightarrow> jsnum" where
  "jround (Num a) = Num (fl64 a)"
| "jround x = x"

text \<open>
  The operations as the program computes them: the exact result, rounded. The evaluator,
  the outlier scores, the moving averages and the Bollinger bands are written with them.
  The regression trainer, the predictors, the RSI and the price levels of the signal are
  written with the exact operations.
\<close>

definition fadd :: "jsnum \<Rightarrow> jsnum \<Rightarrow> jsnum" where
  "fadd x y = jround (jadd x y)"

definition fsub :: "jsnum \<Rightarrow> jsnum \<Rightarrow> jsnum" where
  "fsub x y = jround (jsub x y)"

definition fmul :: "jsnum \<Rightarrow> jsnum \<Rightarrow> jsnum" where
  "fmul x y = jround (jmul x y)"

definition fdiv :: "jsnum \<Rightarrow> jsnum \<Rightarrow> jsnum" where
  "fdiv x y = jround (jdiv x y)"

definition fsqrt :: "jsnum \<Rightarrow> jsnum" where
  "fsqrt x = jround (jsqrt x)"

text \<open>\<open>x || 1\<close> on a number: \<open>0\<close> and \<open>NaN\<close> are falsy.\<close>

fun jor1 :: "jsnum \<Rightarrow> jsnum" where
  "jor1 (Num a) = (if a = 0 then Num 1 else Num a)"
| "jor1 NaN = Num 1"
| "jor1 x = x"

text \<open>\<open>xs[i]\<close> used as a number: an index out of range reads \<open>undefined\<close>, which
  arithmetic turns into \<open>NaN\<close>.\<close>

definition jnth :: "jsnum list \<Rightarrow> nat \<Rightarrow> jsnum" where
  "jnth xs i = (if i < length xs then xs ! i else NaN)"

text \<open>
  \<open>x.toFixed(f)\<close> returns a string. \<open>Digits neg n f\<close> stands for the decimal string of
  \<open>n / 10^f\<close> with \<open>f\<close> decimals, preceded by \<open>-\<close> when \<open>neg\<close>; \<open>n\<close> is the integer
  nearest to \<open>|x| * 10^f\<close>, the larger one on a tie. Non-finite numbers and numbers of
  magnitude \<open>10^21\<close> and more are printed by \<open>String(x)\<close>, kept here as \<open>Str x\<close>.
\<close>

datatype jsstr = Digits bool nat nat | Str jsnum

fun toFixed :: "nat \<Rightarrow> jsnum \<Rightarrow> jsstr" where
  "toFixed f (Num x) =
     (if 10 ^ 21 \<le> \<bar>x\<bar> then Str (Num x)
      else Digits (x < 0) (nat \<lfloor>\<bar>x\<bar> * 10 ^ f + 1 / 2\<rfloor>) f)"
| "toFixed f x = Str x"

section \<open>Evaluator\<close>

text \<open>
  \<open>evaluateModel(actual, predicted)\<close>: the four reductions run over \<open>actual\<close> with its
  indices; \<open>predicted[i]\<close> is read at the same index.
\<close>

record metrics =
  mse :: jsstr
  rmse :: jsstr
  r2 :: jsstr
  mae :: jsstr

definition sqErrSum :: "jsnum list \<Rightarrow> jsnum list \<Rightarrow> jsnum" where
  "sqErrSum actual predicted =
     foldl (\<lambda>s (i, v). fadd s (fmul (fsub v (jnth predicted i)) (fsub v (jnth predicted i))))
       (Num 0) (enumerate 0 actual)"

definition absErrSum :: "jsnum list \<Rightarrow> jsnum list \<Rightarrow> jsnum" where
  "absErrSum actual predicted =
     foldl (\<lambda>s (i, v). fadd s (jabs (fsub v (jnth predicted i)))) (Num 0) (enumerate 0 actual)"

definition fsum :: "jsnum list \<Rightarrow> jsnum" where
  "fsum xs = foldl fadd (Num 0) xs"

definition ssTot :: "jsnum list \<Rightarrow> jsnum" where
  "ssTot actual =
     (let n = Num (real (length actual));
          mean = fdiv (fsum actual) n
      in foldl (\<lambda>s v. fadd s (fmul (fsub v mean) (fsub v mean))) (Num 0) actual)"

definition r2raw :: "jsnum list \<Rightarrow> jsnum list \<Rightarrow> jsnum" where
  "r2raw actual predicted =
     (let ssRes = sqErrSum actual predicted
      in fsub (Num 1) (fdiv ssRes (ssTot actual)))"

definition evaluateModel :: "jsnum list \<Rightarrow> jsnum list \<Rightarrow> metrics" where
  "evaluateModel actual predicted =
     (let n = Num (real (length actual));
          mse_v = fdiv (sqErrSum actual predicted) n;
          rmse_v = fsqrt mse_v;
          r2_v = r2raw actual predicted;
          mae_v = fdiv (absErrSum actual predicted) n
      in \<lparr>mse = toFixed 2 mse_v, rmse = toFixed 2 rmse_v, r2 = toFixed 4 r2_v,
          mae = toFixed 2 mae_v\<rparr>)"

section \<open>Cleaning engine\<close>

text \<open>
  A row is an object with the fields of one trading day. \<open>close\<close> and \<open>volume\<close> may be
  \<open>null\<close> (\<open>None\<close>) in the raw input. Rows are objects: an array holds references to
  them, so the arrays of \<open>cleanData\<close> are lists of addresses into a store, and an
  assignment to a field of \<open>cleaned[i]\<close> updates the store.
\<close>

record row =
  date :: string
  openp :: real
  high :: real
  low :: real
  close :: "real option"
  volume :: "real option"

type_synonym addr = nat
type_synonym heap = "addr \<Rightarrow> row"

record issues =
  nulls :: nat
  duplicates :: nat
  outliers :: nat

text \<open>\<open>null\<close> in arithmetic and in the sort comparator \<open>(a, b) => a - b\<close> is \<open>0\<close>.\<close>

fun toNum :: "real option \<Rightarrow> real" where
  "toNum None = 0"
| "toNum (Some x) = x"

text \<open>\<open>cleaned.filter(...)\<close> with the set \<open>seen\<close> of dates: scans in order, keeps the first
  row of each date and counts every dropped one.\<close>

fun dedup :: "heap \<Rightarrow> string set \<Rightarrow> issues \<Rightarrow> addr list \<Rightarrow> addr list \<times> issues" where
  "dedup h seen iss [] = ([], iss)"
| "dedup h seen iss (r # rs) =
     (if date (h r) \<in> seen
      then dedup h seen (iss\<lparr>duplicates := duplicates iss + 1\<rparr>) rs
      else (let (out, iss') = dedup h (insert (date (h r)) seen) iss rs
            in (r # out, iss')))"

text \<open>The body of the forward-fill loop at index \<open>i\<close>: two assignments into the row object
  \<open>cleaned[i]\<close>, each guarded by \<open>== null && i > 0\<close>.\<close>

definition ffill_step :: "addr list \<Rightarrow> heap \<times> issues \<Rightarrow> nat \<Rightarrow> heap \<times> issues" where
  "ffill_step cleaned s i =
     (let (h, iss) = s;
          (h1, iss1) =
            (if close (h (cleaned ! i)) = None \<and> 0 < i
             then (h(cleaned ! i := (h (cleaned ! i))\<lparr>close := close (h (cleaned ! (i - 1)))\<rparr>),
                   iss\<lparr>nulls := nulls iss + 1\<rparr>)
             else (h, iss));
          (h2, iss2) =
            (if volume (h1 (cleaned ! i)) = None \<and> 0 < i
             then (h1(cleaned ! i := (h1 (cleaned ! i))\<lparr>volume := volume (h1 (cleaned ! (i - 1)))\<rparr>),
                   iss1\<lparr>nulls := nulls iss1 + 1\<rparr>)
             else (h1, iss1))
      in (h2, iss2))"

definition ffill :: "addr list \<Rightarrow> heap \<times> issues \<Rightarrow> heap \<times> issues" where
  "ffill cleaned s = foldl (ffill_step cleaned) s [0..<length cleaned]"

text \<open>\<open>xs.slice(s, e)\<close> for \<open>0 \<le> s\<close> and \<open>e \<le> xs.length\<close>.\<close>

definition jsSlice :: "nat \<Rightarrow> nat \<Rightarrow> 'a list \<Rightarrow> 'a list" where
  "jsSlice s e xs = take (e - s) (drop s xs)"

text \<open>
  \<open>[...vs].sort((a, b) => a - b)[Math.floor(vs.length / 2)]\<close>: the sort is stable and
  compares \<open>null\<close> as \<open>0\<close> (the rounded difference \<open>a - b\<close> has the sign of the exact
  one); the element taken is the upper middle one. For an empty array
  the read is \<open>undefined\<close>; no arithmetic of \<open>cleanData\<close> reads it then (there is no row),
  and the model gives \<open>None\<close>.
\<close>

definition jsMedian :: "real option list \<Rightarrow> real option" where
  "jsMedian vs = (if vs = [] then None else sort_key toNum vs ! (length vs div 2))"

text \<open>\<open>[...deviations].sort(...)[Math.floor(deviations.length / 2)] || 1\<close>: \<open>undefined\<close>
  (empty array) and \<open>0\<close> are falsy.\<close>

definition madOr1 :: "real list \<Rightarrow> real" where
  "madOr1 deviations =
     (if deviations = [] then 1
      else (let d = sort deviations ! (length deviations div 2) in if d = 0 then 1 else d))"

text \<open>The window median of the outlier branch: \<open>cleaned\<close> is the array before the pass
  (the variable is reassigned only when \<open>map\<close> has returned); \<open>idx - 2\<close> on \<open>nat\<close> is
  \<open>Math.max(0, idx - 2)\<close>.\<close>

definition winMedian :: "row list \<Rightarrow> nat \<Rightarrow> real option" where
  "winMedian cleaned idx =
     (let win = jsSlice (max 0 (idx - 2)) (min (length cleaned) (idx + 3)) cleaned
      in sort_key toNum (map close win) ! (length win div 2))"

definition zscore :: "real option \<Rightarrow> real \<Rightarrow> row \<Rightarrow> real" where
  "zscore median mad r = \<bar>fl64 (fl64 (toNum (close r) - toNum median) / mad)\<bar>"

text \<open>The callback of \<open>cleaned.map((row, idx) => ...)\<close>, threading the result array and
  the counter.\<close>

definition outlier_step ::
  "row list \<Rightarrow> real option \<Rightarrow> real \<Rightarrow> row list \<times> issues \<Rightarrow> nat \<Rightarrow> row list \<times> issues" where
  "outlier_step cleaned median mad s idx =
     (let (out, iss) = s;
          r = cleaned ! idx;
          z = zscore median mad r
      in if z > 35 / 10
         then (out @ [r\<lparr>close := winMedian cleaned idx\<rparr>], iss\<lparr>outliers := outliers iss + 1\<rparr>)
         else (out @ [r], iss))"

definition fixOutliers :: "row list \<Rightarrow> issues \<Rightarrow> row list \<times> issues" where
  "fixOutliers cleaned iss =
     (let closes = map close cleaned;
          median = jsMedian closes;
          deviations = map (\<lambda>v. \<bar>fl64 (toNum v - toNum median)\<bar>) closes;
          mad = madOr1 deviations
      in foldl (outlier_step cleaned median mad) ([], iss) [0..<length cleaned])"

text \<open>
  \<open>cleanData(rawData)\<close>. The result is the store after the run, the rows of the returned
  array (read from the store; a corrected row is a fresh object) and the report.
\<close>

definition cleanData :: "heap \<Rightarrow> addr list \<Rightarrow> heap \<times> row list \<times> issues" where
  "cleanData h rawData =
     (let cleaned = rawData;
          issues0 = \<lparr>nulls = 0, duplicates = 0, outliers = 0\<rparr>;
          (cleaned1, issues1) = dedup h {} issues0 cleaned;
          (h2, issues2) = ffill cleaned1 (h, issues1);
          (cleaned3, issues3) = fixOutliers (map h2 cleaned1) issues2
      in (h2, cleaned3, issues3))"

section \<open>Indicator engine\<close>

record indicator = row +
  sma10 :: "real option"
  sma20 :: "real option"
  sma50 :: "real option"
  rsi :: "real option"
  upperBand :: "real option"
  lowerBand :: "real option"
  volatility :: "real option"

text \<open>\<open>{ ...row }\<close>: a fresh object with the fields of the row; the indicator fields are
  absent (\<open>undefined\<close>, \<open>None\<close>) until assigned.\<close>

definition spreadRow :: "row \<Rightarrow> indicator" where
  "spreadRow r =
     \<lparr>date = date r, openp = openp r, high = high r, low = low r, close = close r,
      volume = volume r, sma10 = None, sma20 = None, sma50 = None, rsi = None,
      upperBand = None, lowerBand = None, volatility = None\<rparr>"

definition closeSum :: "row list \<Rightarrow> real" where
  "closeSum win = foldl (\<lambda>s d. fl64 (s + toNum (close d))) 0 win"

text \<open>\<open>win.map((d, j, win) => (j ? d.close - win[j - 1].close : 0))\<close>\<close>

definition changes :: "row list \<Rightarrow> real list" where
  "changes win =
     map (\<lambda>j. if j \<noteq> 0 then toNum (close (win ! j)) - toNum (close (win ! (j - 1))) else 0)
       [0..<length win]"

definition rsiOf :: "real list \<Rightarrow> real" where
  "rsiOf cs =
     (let gains = filter (\<lambda>c. c > 0) cs;
          losses = map (\<lambda>c. - c) (filter (\<lambda>c. c < 0) cs);
          avgGain = (if length gains \<noteq> 0 then foldl (+) 0 gains / 14 else 0);
          avgLoss = (if length losses \<noteq> 0 then foldl (+) 0 losses / 14 else 0);
          rs = (if avgLoss = 0 then 100 else avgGain / avgLoss)
      in 100 - 100 / (1 + rs))"

text \<open>A number read as a condition: \<open>undefined\<close> and \<open>0\<close> are falsy.\<close>

fun truthy :: "real option \<Rightarrow> bool" where
  "truthy None = False"
| "truthy (Some x) = (x \<noteq> 0)"

definition variance20 :: "real list \<Rightarrow> real \<Rightarrow> real" where
  "variance20 vals mu = fl64 (foldl (\<lambda>s v. fl64 (s + fl64 ((fl64 (v - mu))\<^sup>2))) 0 vals / 20)"

definition indicatorAt :: "row list \<Rightarrow> nat \<Rightarrow> indicator" where
  "indicatorAt arr i =
     (let out0 = spreadRow (arr ! i);
          out1 = (if 9 \<le> i then out0\<lparr>sma10 := Some (fl64 (closeSum (jsSlice (i - 9) (i + 1) arr) / 10))\<rparr>
                  else out0);
          out2 = (if 19 \<le> i then out1\<lparr>sma20 := Some (fl64 (closeSum (jsSlice (i - 19) (i + 1) arr) / 20))\<rparr>
                  else out1);
          out3 = (if 49 \<le> i then out2\<lparr>sma50 := Some (fl64 (closeSum (jsSlice (i - 49) (i + 1) arr) / 50))\<rparr>
                  else out2);
          out4 = (if 14 \<le> i then out3\<lparr>rsi := Some (rsiOf (changes (jsSlice (i - 13) (i + 1) arr)))\<rparr>
                  else out3)
      in if 19 \<le> i \<and> truthy (sma20 out4)
         then (let vals = map (\<lambda>d. toNum (close d)) (jsSlice (i - 19) (i + 1) arr);
                   mu = toNum (sma20 out4);
                   std = fl64 (sqrt (variance20 vals mu))
               in out4\<lparr>upperBand := Some (fl64 (mu + fl64 (2 * std))),
                       lowerBand := Some (fl64 (mu - fl64 (2 * std))),
                       volatility := Some std\<rparr>)
         else out4)"

definition calculateTechnicalIndicators :: "row list \<Rightarrow> indicator list" where
  "calculateTechnicalIndicators arr = map (indicatorAt arr) [0..<length arr]"

section \<open>Regression trainer\<close>

record linmodel =
  slope :: jsnum
  intercept :: jsnum

definition jsum :: "jsnum list \<Rightarrow> jsnum" where
  "jsum xs = foldl jadd (Num 0) xs"

definition sumXY :: "jsnum list \<Rightarrow> jsnum list \<Rightarrow> jsnum" where
  "sumXY X y = foldl (\<lambda>s (i, x). jadd s (jmul x (jnth y i))) (Num 0) (enumerate 0 X)"

definition sumX2 :: "jsnum list \<Rightarrow> jsnum" where
  "sumX2 X = foldl (\<lambda>s x. jadd s (jmul x x)) (Num 0) X"

text \<open>\<open>trainLinearRegression\<close> of the component: the slope's denominator is
  \<open>n * sumX2 - sumX * sumX || 1\<close>.\<close>

definition trainLinearRegression :: "jsnum list \<Rightarrow> jsnum list \<Rightarrow> linmodel" where
  "trainLinearRegression X y =
     (let n = Num (real (length X));
          sX = jsum X;
          sY = jsum y;
          sXY = sumXY X y;
          sX2 = sumX2 X;
          denom = jor1 (jsub (jmul n sX2) (jmul sX sX));
          slope_v = jdiv (jsub (jmul n sXY) (jmul sX sY)) denom;
          intercept_v = jdiv (jsub sY (jmul slope_v sX)) n
      in \<lparr>slope = slope_v, intercept = intercept_v\<rparr>)"

text \<open>\<open>trainLinearRegression\<close> of \<open>main.jsx\<close>: the same sums, the denominator unguarded.\<close>

definition trainLinearRegression_main :: "jsnum list \<Rightarrow> jsnum list \<Rightarrow> linmodel" where
  "trainLinearRegression_main X y =
     (let n = Num (real (length X));
          sX = jsum X;
          sY = jsum y;
          sXY = sumXY X y;
          sX2 = sumX2 X;
          slope_v = jdiv (jsub (jmul n sXY) (jmul sX sY)) (jsub (jmul n sX2) (jmul sX sX));
          intercept_v = jdiv (jsub sY (jmul slope_v sX)) n
      in \<lparr>slope = slope_v, intercept = intercept_v\<rparr>)"

text \<open>\<open>predict: (x) => slope * x + intercept\<close>\<close>

definition linPredict :: "linmodel \<Rightarrow> jsnum \<Rightarrow> jsnum" where
  "linPredict m x = jadd (jmul (slope m) x) (intercept m)"

text \<open>The quadratic model \<open>{a, b, c}\<close> with \<open>predict: (x) => a * x * x + b * x + c\<close>.\<close>

record polymodel =
  coef_a :: jsnum
  coef_b :: jsnum
  coef_c :: jsnum

definition polyPredict :: "polymodel \<Rightarrow> jsnum \<Rightarrow> jsnum" where
  "polyPredict m x = jadd (jadd (jmul (jmul (coef_a m) x) x) (jmul (coef_b m) x)) (coef_c m)"

section \<open>Forecaster\<close>

record forecastPoint =
  day :: nat
  linear_v :: jsnum
  polynomial_v :: jsnum
  ensemble_v :: jsnum

definition forecastPointAt :: "linmodel \<Rightarrow> polymodel \<Rightarrow> nat \<Rightarrow> nat \<Rightarrow> forecastPoint" where
  "forecastPointAt lin poly len i =
     (let idx = len + i - 1;
          l = linPredict lin (Num (real idx));
          p = polyPredict poly (Num (real idx))
      in \<lparr>day = i, linear_v = l, polynomial_v = p, ensemble_v = jdiv (jadd l p) (Num 2)\<rparr>)"

text \<open>The loop \<open>for (let i = 1; i <= 30; i++) { ...; future.push(...) }\<close>, with \<open>len\<close> the
  length of the cleaned series.\<close>

function forecast_loop ::
  "linmodel \<Rightarrow> polymodel \<Rightarrow> nat \<Rightarrow> nat \<Rightarrow> forecastPoint list \<Rightarrow> forecastPoint list" where
  "forecast_loop lin poly len i future =
     (if i \<le> 30 then forecast_loop lin poly len (i + 1) (future @ [forecastPointAt lin poly len i])
      else future)"
  by pat_completeness auto
termination
  by (relation "measure (\<lambda>(lin, poly, len, i, future). 31 - i)") auto

definition forecast :: "linmodel \<Rightarrow> polymodel \<Rightarrow> nat \<Rightarrow> forecastPoint list" where
  "forecast lin poly len = forecast_loop lin poly len 1 []"

section \<open>Signal engine\<close>

datatype action = BUY | SELL | HOLD

datatype error = TypeError

record signalNotes =
  note_rsi :: "jsstr option"
  note_sma20 :: "jsstr option"
  note_sma50 :: "jsstr option"

record signal =
  action :: action
  probability :: nat
  riskPct :: real
  targetPct :: real
  price :: "real option"
  stop :: jsnum
  target :: jsnum
  notes_v :: signalNotes

text \<open>Comparisons in which an \<open>undefined\<close> operand makes the result false.\<close>

fun lessOpt :: "real option \<Rightarrow> real option \<Rightarrow> bool" where
  "lessOpt (Some a) (Some b) = (a < b)"
| "lessOpt _ _ = False"

fun leOpt :: "real option \<Rightarrow> real option \<Rightarrow> bool" where
  "leOpt (Some a) (Some b) = (a \<le> b)"
| "leOpt _ _ = False"

text \<open>Unary plus on the string of \<open>toFixed\<close>.\<close>

fun unaryPlus :: "jsstr \<Rightarrow> jsnum" where
  "unaryPlus (Digits neg n f) = Num ((if neg then - 1 else 1) * real n / 10 ^ f)"
| "unaryPlus (Str x) = x"

text \<open>
  \<open>generateSignal(rows)\<close>. \<open>rows[n - 1]\<close> of an empty array is \<open>undefined\<close> and reading
  \<open>last.rsi\<close> throws; \<open>rows[n - 2]\<close> of a one-row array is \<open>undefined\<close> and \<open>prev.sma20\<close>
  throws when the conjunction reaches it.
\<close>

definition generateSignal :: "indicator list \<Rightarrow> error + signal" where
  "generateSignal rows =
     (let n = length rows in
      if n = 0 then Inl TypeError
      else
       (let last = rows ! (n - 1);
            rsiBuy = (case rsi last of None \<Rightarrow> False | Some r \<Rightarrow> r < 35);
            rsiSell = (case rsi last of None \<Rightarrow> False | Some r \<Rightarrow> r > 65);
            bullHead = (truthy (sma20 last) \<and> truthy (sma50 last) \<and> lessOpt (sma50 last) (sma20 last));
            bearHead = (truthy (sma20 last) \<and> truthy (sma50 last) \<and> lessOpt (sma20 last) (sma50 last))
        in if (bullHead \<or> bearHead) \<and> n < 2 then Inl TypeError
           else
            (let prev = rows ! (n - 2);
                 smaBull = (bullHead \<and> leOpt (sma20 prev) (sma50 prev));
                 smaBear = (bearHead \<and> leOpt (sma50 prev) (sma20 prev));
                 action0 = HOLD;
                 action1 = (if smaBull \<or> rsiBuy then BUY else action0);
                 action2 = (if smaBear \<or> rsiSell then SELL else action1);
                 votes = length (filter (\<lambda>b. b) [rsiBuy \<or> rsiSell, smaBull \<or> smaBear]);
                 probability_v = min 90 (50 + votes * 20);
                 vol = (if truthy (volatility last) then toNum (volatility last) else 1);
                 riskPct_v = min 3 (max 1 (vol * (5 / 10)));
                 targetPct_v = riskPct_v * 2;
                 price_v = close last;
                 stop_v = (if action2 = BUY
                           then unaryPlus (toFixed 2 (Num (toNum price_v * (1 - riskPct_v / 100))))
                           else unaryPlus (toFixed 2 (Num (toNum price_v * (1 + riskPct_v / 100)))));
                 target_v = (if action2 = BUY
                             then unaryPlus (toFixed 2 (Num (toNum price_v * (1 + targetPct_v / 100))))
                             else unaryPlus (toFixed 2 (Num (toNum price_v * (1 - targetPct_v / 100)))))
             in Inr \<lparr>action = action2, probability = probability_v, riskPct = riskPct_v,
                     targetPct = targetPct_v, price = price_v, stop = stop_v, target = target_v,
                     notes_v = \<lparr>note_rsi = map_option (\<lambda>x. toFixed 1 (Num x)) (rsi last),
                               note_sma20 = map_option (\<lambda>x. toFixed 2 (Num x)) (sma20 last),
                               note_sma50 = map_option (\<lambda>x. toFixed 2 (Num x)) (sma50 last)\<rparr>\<rparr>)))"

section \<open>Example inputs\<close>

definition mkRow :: "string \<Rightarrow> real option \<Rightarrow> real option \<Rightarrow> row" where
  "mkRow d c v = \<lparr>date = d, openp = toNum c, high = toNum c, low = toNum c, close = c, volume = v\<rparr>"

text \<open>Fifteen rows with closes \<open>0, 1, ..., 14\<close>; twenty rows with closes
  \<open>1, 3, 1, 3, ...\<close>; twenty rows with closes \<open>10, 11, 12, 13, 14\<close> four times.\<close>

definition risingSeries :: "row list" where
  "risingSeries = map (\<lambda>k. mkRow [] (Some (real k)) (Some 1)) [0..<15]"

definition zigzagSeries :: "row list" where
  "zigzagSeries = map (\<lambda>c. mkRow [] (Some c) (Some 1))
     [1, 3, 1, 3, 1, 3, 1, 3, 1, 3, 1, 3, 1, 3, 1, 3, 1, 3, 1, 3]"

definition stairSeries :: "row list" where
  "stairSeries = map (\<lambda>c. mkRow [] (Some c) (Some 1))
     [10, 11, 12, 13, 14, 10, 11, 12, 13, 14, 10, 11, 12, 13, 14, 10, 11, 12, 13, 14]"

text \<open>The double nearest to \<open>100.1\<close>.\<close>

definition hundredPointOne :: real where
  "hundredPointOne = 3521955646092083 / 2 ^ 45"

text \<open>A fitted line and parabola, and two indicator records: the previous one with
  \<open>rsi = 30\<close>, the current one with \<open>rsi = 28\<close>, \<open>sma20\<close> below \<open>sma50\<close> in both.\<close>

definition exampleLine :: linmodel where
  "exampleLine = \<lparr>slope = Num 2, intercept = Num 5\<rparr>"

definition exampleParabola :: polymodel where
  "exampleParabola = \<lparr>coef_a = Num 0, coef_b = Num 1, coef_c = Num 0\<rparr>"

definition mkIndicator :: "real \<Rightarrow> real \<Rightarrow> real \<Rightarrow> real \<Rightarrow> real \<Rightarrow> indicator" where
  "mkIndicator c r s20 s50 vol =
     \<lparr>date = [], openp = c, high = c, low = c, close = Some c, volume = Some 1,
      sma10 = Some c, sma20 = Some s20, sma50 = Some s50, rsi = Some r,
      upperBand = Some (s20 + 2 * vol), lowerBand = Some (s20 - 2 * vol),
      volatility = Some vol\<rparr>"

definition oversoldRows :: "indicator list" where
  "oversoldRows = [mkIndicator 100 30 99 101 2, mkIndicator 98 28 98 101 2]"

text \<open>A store of three rows: the second has neither close nor volume, the third no close.\<close>

definition exampleHeap :: heap where
  "exampleHeap a =
     (if a = 0 then mkRow ''2024-01-01'' (Some 10) (Some 5)
      else if a = 1 then mkRow ''2024-01-02'' None None
      else mkRow ''2024-01-03'' None (Some 8))"

definition noIssues :: issues where
  "noIssues = \<lparr>nulls = 0, duplicates = 0, outliers = 0\<rparr>"

text \<open>Seven rows with closes \<open>10, 12, 14, 12, 18, 12, 100\<close>, and five with closes
  \<open>5, 5, 5, 5, 50\<close>.\<close>

definition wobbleSeries :: "row list" where
  "wobbleSeries = map (\<lambda>c. mkRow [] (Some c) (Some 1)) [10, 12, 14, 12, 18, 12, 100]"

definition flatSeries :: "row list" where
  "flatSeries = map (\<lambda>c. mkRow [] (Some c) (Some 1)) [5, 5, 5, 5, 50]"

section \<open>Rounding to the nearest double\<close>

lemma rne_of_int: "rne (of_int n) = n"
  by (simp add: rne_def)

lemma rne_bounds: "\<lfloor>y\<rfloor> \<le> rne y \<and> rne y \<le> \<lfloor>y\<rfloor> + 1"
  by (simp add: rne_def Let_def)

lemma rne_mono: "x \<le> y \<Longrightarrow> rne x \<le> rne y"
proof -
  assume xy: "x \<le> y"
  have f: "\<lfloor>x\<rfloor> \<le> \<lfloor>y\<rfloor>" using xy by (rule floor_mono)
  show ?thesis
  proof (cases "\<lfloor>x\<rfloor> = \<lfloor>y\<rfloor>")
    case True
    then have "x - of_int \<lfloor>x\<rfloor> \<le> y - of_int \<lfloor>y\<rfloor>" using xy by simp
    then show ?thesis using True unfolding rne_def Let_def by auto
  next
    case False
    then have "\<lfloor>x\<rfloor> + 1 \<le> \<lfloor>y\<rfloor>" using f by simp
    then show ?thesis using rne_bounds [of x] rne_bounds [of y] by linarith
  qed
qed

lemma rne_near: "of_int n - 1 / 2 < y \<Longrightarrow> y < of_int n + 1 / 2 \<Longrightarrow> rne y = n"
proof -
  assume lo: "of_int n - 1 / 2 < y" and hi: "y < of_int n + 1 / 2"
  show ?thesis
  proof (cases "of_int n \<le> y")
    case True
    then have "\<lfloor>y\<rfloor> = n" using hi by (intro floor_unique) auto
    then show ?thesis using hi by (simp add: rne_def Let_def)
  next
    case False
    then have "\<lfloor>y\<rfloor> = n - 1" using lo by (intro floor_unique) auto
    then show ?thesis using lo by (simp add: rne_def Let_def)
  qed
qed

lemma rne_err: "\<bar>of_int (rne y) - y\<bar> \<le> 1 / 2"
proof -
  have "of_int \<lfloor>y\<rfloor> \<le> y" "y < of_int \<lfloor>y\<rfloor> + 1" by linarith+
  then show ?thesis unfolding rne_def Let_def by auto
qed

lemma expo_bounds:
  "x \<noteq> 0 \<Longrightarrow> 2 powr of_int (expo x) \<le> \<bar>x\<bar> \<and> \<bar>x\<bar> < 2 powr (of_int (expo x) + 1)"
  using floor_log_eq_powr_iff [of "\<bar>x\<bar>" 2 "expo x"] by (simp add: expo_def)

lemma expo_eq:
  "x \<noteq> 0 \<Longrightarrow> 2 powr of_int e \<le> \<bar>x\<bar> \<Longrightarrow> \<bar>x\<bar> < 2 powr (of_int e + 1) \<Longrightarrow> expo x = e"
  using floor_log_eq_powr_iff [of "\<bar>x\<bar>" 2 e] by (simp add: expo_def)

lemma ulp_pos: "0 < ulp x"
  by (simp add: ulp_def)

lemma ulp_scale: "ulp x * 2 ^ 52 = 2 powr of_int (expo x)"
proof -
  have "2 powr of_int (expo x - 52) = 2 powr of_int (expo x) / 2 powr (52::real)"
    by (simp add: powr_diff)
  then show ?thesis by (simp add: ulp_def)
qed

lemma scaled_bounds:
  assumes "x \<noteq> 0"
  shows "2 ^ 52 \<le> \<bar>x\<bar> / ulp x \<and> \<bar>x\<bar> / ulp x < 2 ^ 53"
proof -
  note b = expo_bounds [OF assms]
  have "2 powr (of_int (expo x) + 1) = ulp x * 2 ^ 53"
    using ulp_scale [of x] by (simp add: powr_add)
  then have hi: "\<bar>x\<bar> < ulp x * 2 ^ 53" using b by simp
  have lo: "ulp x * 2 ^ 52 \<le> \<bar>x\<bar>" using b ulp_scale [of x] by simp
  show ?thesis using lo hi ulp_pos [of x]
    by (simp add: pos_le_divide_eq pos_divide_less_eq mult.commute)
qed

lemma rne_scaled:
  assumes "x \<noteq> 0"
  shows "2 ^ 52 \<le> rne (\<bar>x\<bar> / ulp x) \<and> rne (\<bar>x\<bar> / ulp x) \<le> 2 ^ 53"
proof -
  note b = scaled_bounds [OF assms]
  have "rne (of_int (2 ^ 52)) \<le> rne (\<bar>x\<bar> / ulp x)" using b by (intro rne_mono) simp
  moreover have "rne (\<bar>x\<bar> / ulp x) \<le> rne (of_int (2 ^ 53))" using b by (intro rne_mono) simp
  ultimately show ?thesis unfolding rne_of_int by simp
qed

lemma fl64_zero: "fl64 0 = 0"
  by (simp add: fl64_def)

lemma fl64_minus: "fl64 (- x) = - fl64 x"
  by (simp add: fl64_def ulp_def expo_def)

lemma fl64_pos_bounds:
  assumes "0 < x"
  shows "2 powr of_int (expo x) \<le> fl64 x \<and> fl64 x \<le> 2 powr (of_int (expo x) + 1)"
proof -
  have ne: "x \<noteq> 0" using assms by simp
  note r = rne_scaled [OF ne]
  let ?n = "rne (\<bar>x\<bar> / ulp x)"
  have f: "fl64 x = of_int ?n * ulp x" using assms by (simp add: fl64_def)
  have lo: "(2 ^ 52 :: real) \<le> of_int ?n"
  proof -
    have "(of_int (2 ^ 52) :: real) \<le> of_int ?n" using r by (intro of_int_le_iff [THEN iffD2]) simp
    then show ?thesis by simp
  qed
  have hi: "of_int ?n \<le> (2 ^ 53 :: real)"
  proof -
    have "(of_int ?n :: real) \<le> of_int (2 ^ 53)" using r by (intro of_int_le_iff [THEN iffD2]) simp
    then show ?thesis by simp
  qed
  have a: "2 ^ 52 * ulp x \<le> of_int ?n * ulp x"
    using lo ulp_pos [of x] by (intro mult_right_mono) simp_all
  have b: "of_int ?n * ulp x \<le> 2 ^ 53 * ulp x"
    using hi ulp_pos [of x] by (intro mult_right_mono) simp_all
  have c: "2 powr (of_int (expo x) + 1) = 2 ^ 53 * ulp x"
    using ulp_scale [of x] by (simp add: powr_add)
  have d: "2 powr of_int (expo x) = 2 ^ 52 * ulp x"
    using ulp_scale [of x] by (simp add: mult.commute)
  show ?thesis unfolding f c d using a b by simp
qed

lemma fl64_pos: "0 < x \<Longrightarrow> 0 < fl64 x"
proof -
  assume "0 < x"
  then have "2 powr of_int (expo x) \<le> fl64 x" using fl64_pos_bounds by blast
  moreover have "0 < (2::real) powr of_int (expo x)" by simp
  ultimately show ?thesis by linarith
qed

lemma fl64_nonneg: "0 \<le> x \<Longrightarrow> 0 \<le> fl64 x"
  using fl64_pos [of x] fl64_zero by (cases "x = 0") auto

lemma expo_mono: "0 < x \<Longrightarrow> x \<le> y \<Longrightarrow> expo x \<le> expo y"
  unfolding expo_def by (intro floor_mono) simp

lemma fl64_mono_pos:
  assumes "0 < x" and "x \<le> y"
  shows "fl64 x \<le> fl64 y"
proof -
  have y: "0 < y" using assms by simp
  have e: "expo x \<le> expo y" using assms by (rule expo_mono)
  show ?thesis
  proof (cases "expo x = expo y")
    case True
    then have u: "ulp x = ulp y" by (simp add: ulp_def)
    have "\<bar>x\<bar> / ulp y \<le> \<bar>y\<bar> / ulp y"
      using assms ulp_pos [of y] by (simp add: divide_right_mono)
    then have "rne (\<bar>x\<bar> / ulp y) \<le> rne (\<bar>y\<bar> / ulp y)" by (rule rne_mono)
    then have "(of_int (rne (\<bar>x\<bar> / ulp y)) :: real) \<le> of_int (rne (\<bar>y\<bar> / ulp y))" by simp
    then have "of_int (rne (\<bar>x\<bar> / ulp y)) * ulp y \<le> of_int (rne (\<bar>y\<bar> / ulp y)) * ulp y"
      using ulp_pos [of y] by (intro mult_right_mono) simp_all
    then show ?thesis using assms y u by (simp add: fl64_def)
  next
    case False
    then have "expo x + 1 \<le> expo y" using e by simp
    then have "(of_int (expo x) :: real) + 1 \<le> of_int (expo y)" by linarith
    then have "(2::real) powr (of_int (expo x) + 1) \<le> 2 powr of_int (expo y)"
      by (intro powr_mono) simp_all
    then show ?thesis
      using fl64_pos_bounds [OF assms(1)] fl64_pos_bounds [OF y] by linarith
  qed
qed

lemma fl64_mono: "x \<le> y \<Longrightarrow> fl64 x \<le> fl64 y"
proof -
  assume xy: "x \<le> y"
  consider "0 < x" | "x \<le> 0" "0 \<le> y" | "y < 0" by linarith
  then show ?thesis
  proof cases
    case 1
    then show ?thesis using xy by (rule fl64_mono_pos)
  next
    case 2
    have "fl64 x = - fl64 (- x)" by (simp add: fl64_minus)
    moreover have "0 \<le> fl64 (- x)" using 2 by (intro fl64_nonneg) simp
    moreover have "0 \<le> fl64 y" using 2 by (intro fl64_nonneg)
    ultimately show ?thesis by linarith
  next
    case 3
    then have "fl64 (- y) \<le> fl64 (- x)" using xy by (intro fl64_mono_pos) simp_all
    then show ?thesis by (simp add: fl64_minus)
  qed
qed

lemma fl64_repr:
  assumes "\<bar>m\<bar> < 2 ^ 53"
  shows "fl64 (of_int m * 2 powr of_int k) = of_int m * 2 powr of_int k"
proof (cases "m = 0")
  case True
  then show ?thesis by (simp add: fl64_zero)
next
  case False
  define x :: real where "x = of_int m * 2 powr of_int k"
  have ne: "x \<noteq> 0" using False by (simp add: x_def)
  have ax: "\<bar>x\<bar> = of_int \<bar>m\<bar> * 2 powr of_int k" by (simp add: x_def abs_mult)
  have "(of_int \<bar>m\<bar> :: real) < of_int (2 ^ 53)" using assms by (intro of_int_less_iff [THEN iffD2])
  then have m53: "(of_int \<bar>m\<bar> :: real) < 2 ^ 53" by simp
  have "\<bar>x\<bar> < 2 ^ 53 * 2 powr of_int k"
    unfolding ax using m53 by (intro mult_strict_right_mono) simp_all
  also have "\<dots> = 2 powr (53 + of_int k)" by (simp add: powr_add)
  finally have "2 powr of_int (expo x) < (2::real) powr (53 + of_int k)"
    using expo_bounds [OF ne] by linarith
  then have "(of_int (expo x) :: real) < 53 + of_int k" by simp
  then have j: "0 \<le> k - expo x + 52" by linarith
  define j where "j = nat (k - expo x + 52)"
  have jk: "of_int k = of_int (expo x - 52) + (real j)"
    using j by (simp add: j_def)
  have "2 powr of_int k = ulp x * 2 ^ j"
    unfolding ulp_def jk by (simp add: powr_add powr_realpow)
  then have sc: "\<bar>x\<bar> / ulp x = of_int (\<bar>m\<bar> * 2 ^ j)"
    using ulp_pos [of x] by (simp add: ax)
  have "rne (\<bar>x\<bar> / ulp x) = \<bar>m\<bar> * 2 ^ j" unfolding sc by (rule rne_of_int)
  then have "of_int (rne (\<bar>x\<bar> / ulp x)) * ulp x = \<bar>x\<bar>"
    using sc ulp_pos [of x] by (simp add: field_simps)
  then have "fl64 x = sgn x * \<bar>x\<bar>" using ne by (simp add: fl64_def)
  then show ?thesis unfolding x_def [symmetric] by (simp add: sgn_mult_abs)
qed

lemma fl64_of_int: "\<bar>m\<bar> < 2 ^ 53 \<Longrightarrow> fl64 (of_int m) = of_int m"
  using fl64_repr [of m 0] by simp

lemma fl64_numeral: "(numeral n :: int) < 2 ^ 53 \<Longrightarrow> fl64 (numeral n) = numeral n"
  using fl64_of_int [of "numeral n"] by simp

lemma fl64_neg_numeral: "(numeral n :: int) < 2 ^ 53 \<Longrightarrow> fl64 (- numeral n) = - numeral n"
  using fl64_of_int [of "- numeral n"] by simp

lemma fl64_one: "fl64 1 = 1"
  using fl64_of_int [of 1] by simp

lemma fl64_neg_one: "fl64 (- 1) = - 1"
  using fl64_of_int [of "- 1"] by simp

lemma fl64_dyadic: "\<bar>m\<bar> < 2 ^ 53 \<Longrightarrow> fl64 (of_int m / 2 ^ k) = of_int m / 2 ^ k"
proof -
  assume m: "\<bar>m\<bar> < 2 ^ 53"
  have "(2::real) powr of_int (- int k) = 1 / 2 ^ k"
    by (simp add: powr_minus_divide powr_realpow)
  then show ?thesis using fl64_repr [OF m, of "- int k"] by simp
qed

lemma fl64_idem: "fl64 (fl64 x) = fl64 x"
proof (cases "x = 0")
  case True
  then show ?thesis by (simp add: fl64_zero)
next
  case False
  let ?n = "rne (\<bar>x\<bar> / ulp x)"
  note r = rne_scaled [OF False]
  have f: "fl64 x = sgn x * (of_int ?n * ulp x)" using False by (simp add: fl64_def)
  define s :: int where "s = (if 0 < x then 1 else - 1)"
  have sg: "sgn x = of_int s" using False by (simp add: s_def sgn_if)
  show ?thesis
  proof (cases "?n = 2 ^ 53")
    case True
    have "of_int ?n * ulp x = 2 ^ 53 * ulp x" using True by simp
    also have "\<dots> = 2 powr of_int (expo x + 1)"
      using ulp_scale [of x] by (simp add: powr_add)
    finally have "fl64 x = of_int s * 2 powr of_int (expo x + 1)" unfolding f sg by simp
    moreover have "\<bar>s\<bar> < 2 ^ 53" by (simp add: s_def)
    ultimately show ?thesis using fl64_repr [of s "expo x + 1"] by simp
  next
    case False
    then have "?n < 2 ^ 53" using r by simp
    moreover have "0 \<le> ?n" using r by simp
    moreover have "\<bar>s\<bar> = 1" by (simp add: s_def)
    ultimately have "\<bar>s * ?n\<bar> < 2 ^ 53" by (simp add: abs_mult)
    moreover have "fl64 x = of_int (s * ?n) * 2 powr of_int (expo x - 52)"
      unfolding f sg ulp_def by simp
    ultimately show ?thesis using fl64_repr [of "s * ?n" "expo x - 52"] by simp
  qed
qed

lemma expo_double: "x \<noteq> 0 \<Longrightarrow> expo (2 * x) = expo x + 1"
proof -
  assume ne: "x \<noteq> 0"
  note b = expo_bounds [OF ne]
  have "(2::real) powr of_int (expo x + 1) = 2 * 2 powr of_int (expo x)"
    by (simp add: powr_add)
  moreover have "(2::real) powr (of_int (expo x + 1) + 1) = 2 * 2 powr (of_int (expo x) + 1)"
    by (simp add: powr_add)
  ultimately show ?thesis using b ne by (intro expo_eq) (simp_all add: abs_mult)
qed

lemma fl64_double: "fl64 (2 * x) = 2 * fl64 x"
proof (cases "x = 0")
  case True
  then show ?thesis by (simp add: fl64_zero)
next
  case False
  have e: "expo (2 * x) = expo x + 1" using False by (rule expo_double)
  have "(2::real) powr of_int (expo x + 1 - 52) = 2 * 2 powr of_int (expo x - 52)"
  proof -
    have "(of_int (expo x + 1 - 52) :: real) = of_int (expo x - 52) + 1" by simp
    then show ?thesis by (simp only: powr_add) simp
  qed
  then have u: "ulp (2 * x) = 2 * ulp x" by (simp add: ulp_def e)
  have q: "\<bar>2 * x\<bar> / (2 * ulp x) = \<bar>x\<bar> / ulp x" by (simp add: abs_mult)
  have "fl64 (2 * x) = sgn (2 * x) * (of_int (rne (\<bar>2 * x\<bar> / (2 * ulp x))) * (2 * ulp x))"
    using False by (simp add: fl64_def u)
  also have "\<dots> = 2 * (sgn x * (of_int (rne (\<bar>x\<bar> / ulp x)) * ulp x))"
    unfolding q by (simp add: sgn_mult)
  finally show ?thesis using False by (simp add: fl64_def)
qed

lemma fl64_err: "\<bar>fl64 x - x\<bar> \<le> \<bar>x\<bar> / 2 ^ 53"
proof (cases "x = 0")
  case True
  then show ?thesis by (simp add: fl64_zero)
next
  case False
  let ?n = "rne (\<bar>x\<bar> / ulp x)"
  let ?u = "ulp x"
  have up: "0 < ?u" by (rule ulp_pos)
  have f: "fl64 x = sgn x * (of_int ?n * ?u)" using False by (simp add: fl64_def)
  have "fl64 x - x = sgn x * (of_int ?n * ?u) - sgn x * \<bar>x\<bar>"
    by (simp only: f sgn_mult_abs)
  then have "fl64 x - x = sgn x * (of_int ?n * ?u - \<bar>x\<bar>)"
    by (simp only: right_diff_distrib)
  then have "\<bar>fl64 x - x\<bar> = \<bar>of_int ?n * ?u - \<bar>x\<bar>\<bar>"
    using False by (simp add: abs_mult abs_sgn_eq)
  also have "of_int ?n * ?u - \<bar>x\<bar> = (of_int ?n - \<bar>x\<bar> / ?u) * ?u"
    using up by (simp add: field_simps)
  also have "\<bar>(of_int ?n - \<bar>x\<bar> / ?u) * ?u\<bar> = \<bar>of_int ?n - \<bar>x\<bar> / ?u\<bar> * ?u"
    using up by (simp add: abs_mult)
  also have "\<dots> \<le> 1 / 2 * ?u"
    using rne_err [of "\<bar>x\<bar> / ?u"] up by (intro mult_right_mono) simp_all
  finally have a: "\<bar>fl64 x - x\<bar> \<le> ?u / 2" by simp
  have "?u * 2 ^ 52 \<le> \<bar>x\<bar>" using expo_bounds [OF False] ulp_scale [of x] by simp
  then have "?u / 2 \<le> \<bar>x\<bar> / 2 ^ 53" by simp
  then show ?thesis using a by linarith
qed

lemma rne_tie: "even n \<Longrightarrow> rne (of_int n + 1 / 2) = n"
proof -
  assume ev: "even n"
  have "\<lfloor>(of_int n :: real) + 1 / 2\<rfloor> = n" by (intro floor_unique) simp_all
  then show ?thesis using ev by (simp add: rne_def Let_def)
qed

lemma fl64_eval_rne:
  assumes "e \<le> 52" and "2 ^ e \<le> x" and "x < 2 ^ Suc e"
  shows "fl64 x = of_int (rne (x * 2 ^ (52 - e))) / 2 ^ (52 - e)"
proof -
  have xp: "0 < x" using assms(2) by (rule less_le_trans [rotated]) simp
  then have ne: "x \<noteq> 0" by simp
  have p: "(2::real) powr of_int (int e) = 2 ^ e" by (simp add: powr_realpow)
  have p1: "(2::real) powr (of_int (int e) + 1) = 2 ^ Suc e" by (simp add: powr_add powr_realpow)
  have ex: "expo x = int e"
  proof (rule expo_eq [OF ne])
    show "2 powr of_int (int e) \<le> \<bar>x\<bar>" unfolding p using assms(2) xp by simp
    show "\<bar>x\<bar> < 2 powr (of_int (int e) + 1)" unfolding p1 using assms(3) xp by simp
  qed
  have "(of_int (int e - 52) :: real) = - real (52 - e)" using assms(1) by simp
  then have u: "ulp x = 1 / 2 ^ (52 - e)"
    unfolding ulp_def ex by (simp only: powr_minus_divide powr_realpow)
  have q: "\<bar>x\<bar> / ulp x = x * 2 ^ (52 - e)" using xp by (simp add: u)
  show ?thesis using xp by (simp add: fl64_def u q)
qed

lemma fl64_eval:
  assumes "e \<le> 52" and "2 ^ e \<le> x" and "x < 2 ^ Suc e"
    and "of_int n - 1 / 2 < x * 2 ^ (52 - e)" and "x * 2 ^ (52 - e) < of_int n + 1 / 2"
  shows "fl64 x = of_int n / 2 ^ (52 - e)"
  unfolding fl64_eval_rne [OF assms(1-3)] rne_near [OF assms(4,5)] ..

lemma fl64_sqrt2: "fl64 (sqrt 2) = 6369051672525773 / 2 ^ 52"
proof -
  have lo: "1 \<le> sqrt 2" by simp
  have hi: "sqrt 2 < 2" by (rule real_less_lsqrt) simp_all
  have a: "(6369051672525773 - 1 / 2) / 2 ^ 52 < sqrt 2"
    by (rule real_less_rsqrt) (simp add: power2_eq_square)
  have b: "sqrt 2 < (6369051672525773 + 1 / 2) / 2 ^ 52"
    by (rule real_less_lsqrt) (simp_all add: power2_eq_square)
  have "fl64 (sqrt 2) = of_int 6369051672525773 / 2 ^ (52 - 0)"
    using lo hi a b by (intro fl64_eval) (simp_all add: field_simps)
  then show ?thesis by simp
qed

lemmas fl64_simps = fl64_zero fl64_one fl64_neg_one fl64_numeral fl64_neg_numeral

section \<open>Sums of finite numbers\<close>

lemma foldl_jadd_Num:
  "foldl (\<lambda>s v. jadd s (Num (g v))) (Num a) xs = Num (a + sum_list (map g xs))"
  by (induction xs arbitrary: a) (simp_all add: add.assoc)

lemma jsum_Num: "jsum (map Num xs) = Num (sum_list xs)"
proof -
  have "jsum (map Num xs) = foldl (\<lambda>s v. jadd s (Num v)) (Num 0) xs"
    unfolding jsum_def by (simp add: foldl_map)
  then show ?thesis by (simp add: foldl_jadd_Num)
qed

section \<open>Evaluator: the zero-variance case\<close>

text \<open>A sum of squares is never negative and never \<open>-Infinity\<close>, rounded or not.\<close>

lemma jround_nonneg:
  "x \<noteq> NegInf \<and> (\<forall>a. x = Num a \<longrightarrow> 0 \<le> a)
   \<Longrightarrow> jround x \<noteq> NegInf \<and> (\<forall>a. jround x = Num a \<longrightarrow> 0 \<le> a)"
  by (cases x) (auto simp: fl64_nonneg)

lemma fmul_self_nonneg:
  "fmul d d \<noteq> NegInf \<and> (\<forall>a. fmul d d = Num a \<longrightarrow> 0 \<le> a)"
  unfolding fmul_def by (rule jround_nonneg) (cases d, auto)

lemma fadd_nonneg:
  assumes "s \<noteq> NegInf \<and> (\<forall>a. s = Num a \<longrightarrow> 0 \<le> a)"
    and "t \<noteq> NegInf \<and> (\<forall>a. t = Num a \<longrightarrow> 0 \<le> a)"
  shows "fadd s t \<noteq> NegInf \<and> (\<forall>a. fadd s t = Num a \<longrightarrow> 0 \<le> a)"
  unfolding fadd_def using assms by (intro jround_nonneg) (cases s; cases t; auto)

lemma sqErr_fold_nonneg:
  "s \<noteq> NegInf \<and> (\<forall>a. s = Num a \<longrightarrow> 0 \<le> a) \<Longrightarrow>
   foldl (\<lambda>s (i, v). fadd s (fmul (fsub v (jnth predicted i)) (fsub v (jnth predicted i))))
     s ivs \<noteq> NegInf
   \<and> (\<forall>a. foldl (\<lambda>s (i, v). fadd s (fmul (fsub v (jnth predicted i)) (fsub v (jnth predicted i))))
           s ivs = Num a \<longrightarrow> 0 \<le> a)"
proof (induction ivs arbitrary: s)
  case Nil
  then show ?case by simp
next
  case (Cons iv ivs)
  obtain i v where iv: "iv = (i, v)" by (cases iv)
  let ?d = "fsub v (jnth predicted i)"
  have step: "fadd s (fmul ?d ?d) \<noteq> NegInf
      \<and> (\<forall>a. fadd s (fmul ?d ?d) = Num a \<longrightarrow> 0 \<le> a)"
    using Cons.prems fmul_self_nonneg by (rule fadd_nonneg)
  show ?case unfolding iv foldl_Cons prod.case by (rule Cons.IH [OF step])
qed

lemma sqErrSum_nonneg:
  "sqErrSum actual predicted \<noteq> NegInf
   \<and> (\<forall>a. sqErrSum actual predicted = Num a \<longrightarrow> 0 \<le> a)"
  unfolding sqErrSum_def by (rule sqErr_fold_nonneg) simp

text \<open>
  Claim C1, as amended. \<open>evaluateModel\<close> always returns, and its \<open>r2\<close> field is always
  the string of \<open>1 - SSres / SStot\<close>, where \<open>SSres\<close> is the computed sum of the squared
  errors and \<open>SStot\<close> the computed sum of the squared deviations of \<open>actual\<close> from its
  computed mean. Whenever that computed \<open>SStot\<close> is \<open>0\<close>, the evaluator neither fails nor
  returns \<open>undefined\<close>: the division by zero is performed, and the \<open>r2\<close> field is the
  string \<open>NaN\<close> when the computed \<open>SSres\<close> is \<open>0\<close> or \<open>NaN\<close> (\<open>0 / 0\<close>) and the string
  \<open>-Infinity\<close> otherwise (\<open>1 - x / 0\<close> for \<open>x > 0\<close>).
\<close>

theorem evaluateModel_zero_variance:
  fixes actual predicted :: "jsnum list"
  defines "mean \<equiv> fdiv (foldl fadd (Num 0) actual) (Num (real (length actual)))"
  defines "tot \<equiv> foldl (\<lambda>s v. fadd s (fmul (fsub v mean) (fsub v mean))) (Num 0) actual"
  defines "res \<equiv> foldl (\<lambda>s (i, v). fadd s (fmul (fsub v (jnth predicted i))
                                                (fsub v (jnth predicted i))))
                   (Num 0) (enumerate 0 actual)"
  shows "r2 (evaluateModel actual predicted) = toFixed 4 (fsub (Num 1) (fdiv res tot))
       \<and> (tot = Num 0 \<longrightarrow>
            r2 (evaluateModel actual predicted)
              = (if res = Num 0 \<or> res = NaN then Str NaN else Str NegInf)
          \<and> r2 (evaluateModel actual predicted) \<in> {Str NaN, Str NegInf})"
proof -
  have t: "ssTot actual = tot" by (simp add: ssTot_def tot_def mean_def fsum_def Let_def)
  have r: "sqErrSum actual predicted = res" by (simp add: sqErrSum_def res_def)
  have e: "r2 (evaluateModel actual predicted) = toFixed 4 (fsub (Num 1) (fdiv res tot))"
    by (simp add: evaluateModel_def r2raw_def Let_def t r)
  note nn = sqErrSum_nonneg [of actual predicted, unfolded r]
  have "fsub (Num 1) (fdiv res (Num 0)) = (if res = Num 0 \<or> res = NaN then NaN else NegInf)"
  proof (cases res)
    case (Num a)
    then have "0 \<le> a" using nn by simp
    then show ?thesis unfolding Num by (simp add: fsub_def fdiv_def jsub_def)
  next
    case PosInf
    then show ?thesis by (simp add: fsub_def fdiv_def jsub_def)
  next
    case NegInf
    then show ?thesis using nn by simp
  next
    case NaN
    then show ?thesis by (simp add: fsub_def fdiv_def jsub_def)
  qed
  then have z: "tot = Num 0 \<longrightarrow>
            r2 (evaluateModel actual predicted)
              = (if res = Num 0 \<or> res = NaN then Str NaN else Str NegInf)
          \<and> r2 (evaluateModel actual predicted) \<in> {Str NaN, Str NegInf}"
    unfolding e by simp
  show ?thesis using e z by (rule conjI)
qed

lemma sevens_ssTot:
  "foldl (\<lambda>s v. fadd s (fmul
        (fsub v (fdiv (foldl fadd (Num 0) [Num 7, Num 7, Num 7])
                      (Num (real (length [Num 7, Num 7, Num 7])))))
        (fsub v (fdiv (foldl fadd (Num 0) [Num 7, Num 7, Num 7])
                      (Num (real (length [Num 7, Num 7, Num 7])))))))
     (Num 0) [Num 7, Num 7, Num 7] = Num 0"
  by (simp add: fadd_def fsub_def fmul_def fdiv_def jsub_def fl64_simps)

theorem evaluateModel_zero_variance_witness:
  "ssTot [Num 7, Num 7, Num 7] = Num 0
   \<and> r2 (evaluateModel [Num 7, Num 7, Num 7] [Num 7, Num 8, Num 7]) = Str NegInf
   \<and> r2 (evaluateModel [Num 1, Num 3] [Num 1, Num 3]) = Digits False 10000 4"
proof -
  have a: "ssTot [Num 7, Num 7, Num 7] = Num 0"
    using sevens_ssTot by (simp add: ssTot_def fsum_def Let_def)
  note t = evaluateModel_zero_variance [of "[Num 7, Num 7, Num 7]" "[Num 7, Num 8, Num 7]",
      THEN conjunct2, rule_format, OF sevens_ssTot, THEN conjunct1]
  have b: "r2 (evaluateModel [Num 7, Num 7, Num 7] [Num 7, Num 8, Num 7]) = Str NegInf"
    unfolding t by (simp add: jnth_def fadd_def fsub_def fmul_def jsub_def fl64_simps)
  note u = evaluateModel_zero_variance [of "[Num 1, Num 3]" "[Num 1, Num 3]", THEN conjunct1]
  have c: "r2 (evaluateModel [Num 1, Num 3] [Num 1, Num 3]) = Digits False 10000 4"
    unfolding u by (simp add: jnth_def fadd_def fsub_def fmul_def fdiv_def jsub_def fl64_simps)
  show ?thesis using a b c by simp
qed

text \<open>
  The claim as stated fails: on \<open>actual = [5, 5]\<close>, \<open>predicted = [6, 6]\<close> the evaluator
  returns normally, \<open>SStot\<close> is \<open>0\<close>, and \<open>r2\<close> is the result of the division by it.
\<close>

theorem evaluateModel_divides_by_zero:
  "ssTot [Num 5, Num 5] = Num 0 \<and> sqErrSum [Num 5, Num 5] [Num 6, Num 6] = Num 2
   \<and> r2 (evaluateModel [Num 5, Num 5] [Num 6, Num 6])
       = toFixed 4 (jsub (Num 1) (jdiv (Num 2) (Num 0)))
   \<and> r2 (evaluateModel [Num 5, Num 5] [Num 6, Num 6]) = Str NegInf"
  by (simp add: evaluateModel_def r2raw_def ssTot_def sqErrSum_def fsum_def jsub_def jnth_def
      fadd_def fsub_def fmul_def fdiv_def fl64_simps Let_def)

subsection \<open>A mean that is rounded\<close>

text \<open>
  Three equal closes of \<open>100.1\<close>. The sum \<open>300.3\<close> falls half-way between two doubles and
  is rounded down, the computed mean is one unit in the last place below \<open>100.1\<close>, and the
  computed \<open>SStot\<close> is \<open>3 / 2^92\<close>, not \<open>0\<close>: with exact predictions \<open>r2\<close> is the string
  \<open>1.0000\<close>.
\<close>

lemma hpo_1: "fl64 (0 + hundredPointOne) = hundredPointOne"
  using fl64_dyadic [of 3521955646092083 45] by (simp add: hundredPointOne_def)

lemma hpo_2: "fl64 (hundredPointOne + hundredPointOne) = 2 * hundredPointOne"
proof -
  have "fl64 (2 * hundredPointOne) = 2 * hundredPointOne"
    unfolding fl64_double using hpo_1 by simp
  then show ?thesis by simp
qed

lemma hpo_3: "fl64 (2 * hundredPointOne + hundredPointOne) = 1320733367284531 / 2 ^ 42"
proof -
  have x: "2 * hundredPointOne + hundredPointOne = 10565866938276249 / 2 ^ 45"
    by (simp add: hundredPointOne_def)
  have t: "(10565866938276249 / 2 ^ 45 :: real) * 2 ^ (52 - 8)
         = of_int 5282933469138124 + 1 / 2"
    by simp
  have "fl64 (10565866938276249 / 2 ^ 45)
      = of_int (rne ((10565866938276249 / 2 ^ 45) * 2 ^ (52 - 8))) / 2 ^ (52 - 8)"
    by (rule fl64_eval_rne) simp_all
  also have "\<dots> = of_int 5282933469138124 / 2 ^ (52 - 8)"
    unfolding t by (subst rne_tie) simp_all
  finally show ?thesis unfolding x by simp
qed

lemma hpo_4: "fl64 (1320733367284531 / 2 ^ 42 / 3) = 7043911292184165 / 2 ^ 46"
proof -
  have "fl64 (1320733367284531 / 2 ^ 42 / 3) = of_int 7043911292184165 / 2 ^ (52 - 6)"
    by (rule fl64_eval) simp_all
  then show ?thesis by simp
qed

lemma hpo_5: "fl64 (hundredPointOne + - (7043911292184165 / 2 ^ 46)) = 1 / 2 ^ 46"
proof -
  have x: "hundredPointOne + - (7043911292184165 / 2 ^ 46) = of_int 1 / 2 ^ 46"
    by (simp add: hundredPointOne_def)
  have "fl64 (of_int 1 / 2 ^ 46) = of_int 1 / 2 ^ 46" by (rule fl64_dyadic) simp
  then show ?thesis unfolding x by simp
qed

lemma hpo_6: "fl64 (1 / 2 ^ 46 * (1 / 2 ^ 46)) = 1 / 2 ^ 92"
  using fl64_dyadic [of 1 92] by simp

lemma hpo_7: "fl64 (0 + 1 / 2 ^ 92) = 1 / 2 ^ 92"
  using fl64_dyadic [of 1 92] by simp

lemma hpo_8: "fl64 (1 / 2 ^ 92 + 1 / 2 ^ 92) = 2 / 2 ^ 92"
  using fl64_dyadic [of 2 92] by simp

lemma hpo_9: "fl64 (2 / 2 ^ 92 + 1 / 2 ^ 92) = 3 / 2 ^ 92"
  using fl64_dyadic [of 3 92] by simp

lemma three_rows: "real (length [x, y, z]) = 3" "((3::real) = 0) = False"
  by simp_all

lemma ssTot_rounded_mean:
  "ssTot [Num hundredPointOne, Num hundredPointOne, Num hundredPointOne] = Num (3 / 2 ^ 92)"
  by (simp only: ssTot_def Let_def fsum_def foldl.simps fadd_def fsub_def fmul_def fdiv_def
      jsub_def jadd.simps jneg.simps jmul.simps jdiv.simps jround.simps three_rows if_False
      hpo_1 hpo_2 hpo_3 hpo_4 hpo_5 hpo_6 hpo_7 hpo_8 hpo_9)

lemma sqErrSum_exact_predictions:
  "sqErrSum [Num hundredPointOne, Num hundredPointOne, Num hundredPointOne]
            [Num hundredPointOne, Num hundredPointOne, Num hundredPointOne] = Num 0"
  by (simp add: sqErrSum_def jnth_def fadd_def fsub_def fmul_def jsub_def fl64_simps)

lemma r2_rounded_mean:
  "r2 (evaluateModel [Num hundredPointOne, Num hundredPointOne, Num hundredPointOne]
                     [Num hundredPointOne, Num hundredPointOne, Num hundredPointOne])
   = Digits False 10000 4"
  by (simp add: evaluateModel_def r2raw_def Let_def ssTot_rounded_mean
      sqErrSum_exact_predictions fsub_def fdiv_def jsub_def fl64_simps)

section \<open>Indicator engine: RSI and Bollinger bands\<close>

lemma foldl_plus_sum_list: "foldl (+) (a::real) xs = a + sum_list xs"
  by (induction xs arbitrary: a) simp_all

lemma indicators_nth:
  "i < length arr \<Longrightarrow> calculateTechnicalIndicators arr ! i = indicatorAt arr i"
  by (simp add: calculateTechnicalIndicators_def)

lemma rsi_indicatorAt:
  "rsi (indicatorAt arr i)
   = (if 14 \<le> i then Some (rsiOf (changes (jsSlice (i - 13) (i + 1) arr))) else None)"
  by (simp add: indicatorAt_def Let_def spreadRow_def)

lemma rsiOf_bounds: "0 \<le> rsiOf cs \<and> rsiOf cs \<le> 100"
proof -
  let ?g = "sum_list (filter (\<lambda>c. c > 0) cs) / 14"
  let ?l = "sum_list (map (\<lambda>c. - c) (filter (\<lambda>c. c < 0) cs)) / 14"
  have g: "0 \<le> ?g" by (intro divide_nonneg_nonneg sum_list_nonneg) auto
  have l: "0 \<le> ?l" by (intro divide_nonneg_nonneg sum_list_nonneg) auto
  define rs where "rs =
    (if (if length (map (\<lambda>c. - c) (filter (\<lambda>c. c < 0) cs)) \<noteq> 0 then ?l else 0) = 0 then 100
     else (if length (filter (\<lambda>c. c > 0) cs) \<noteq> 0 then ?g else 0)
          / (if length (map (\<lambda>c. - c) (filter (\<lambda>c. c < 0) cs)) \<noteq> 0 then ?l else 0))"
  have rs: "0 \<le> rs" unfolding rs_def using g l by (auto intro!: divide_nonneg_nonneg)
  have eq: "rsiOf cs = 100 - 100 / (1 + rs)"
    unfolding rsiOf_def Let_def rs_def by (simp add: foldl_plus_sum_list)
  have "100 / (1 + rs) \<le> 100" using rs by (simp add: divide_le_eq)
  moreover have "0 \<le> 100 / (1 + rs)" using rs by simp
  ultimately show ?thesis unfolding eq by simp
qed

lemma rsiOf_no_loss: "\<forall>c \<in> set cs. 0 \<le> c \<Longrightarrow> rsiOf cs = 100 - 100 / 101"
proof -
  assume "\<forall>c \<in> set cs. 0 \<le> c"
  then have "filter (\<lambda>c. c < 0) cs = []" by (auto simp: filter_empty_conv)
  then show ?thesis by (simp add: rsiOf_def Let_def)
qed

text \<open>
  Claim C5. In the output of \<open>calculateTechnicalIndicators\<close> the field \<open>rsi\<close> of the record
  at index \<open>i\<close> is defined exactly when \<open>i \<ge> 14\<close>, and a defined value lies between \<open>0\<close>
  and \<open>100\<close>. When the window has no negative change the average loss is \<open>0\<close>, \<open>RS\<close> is
  forced to \<open>100\<close> and the value is \<open>100 - 100 / (1 + 100)\<close>.
\<close>

theorem rsi_bounds:
  assumes "i < length arr"
  shows "(rsi (calculateTechnicalIndicators arr ! i) = None \<longleftrightarrow> i < 14)
       \<and> (\<forall>r. rsi (calculateTechnicalIndicators arr ! i) = Some r \<longrightarrow>
            14 \<le> i \<and> 0 \<le> r \<and> r \<le> 100
            \<and> ((\<forall>c \<in> set (changes (jsSlice (i - 13) (i + 1) arr)). 0 \<le> c)
                 \<longrightarrow> r = 100 - 100 / (1 + 100)))"
proof -
  have at: "calculateTechnicalIndicators arr ! i = indicatorAt arr i"
    using assms by (rule indicators_nth)
  show ?thesis
    unfolding at rsi_indicatorAt using rsiOf_bounds rsiOf_no_loss by auto
qed

lemma rising_changes: "\<forall>c \<in> set (changes (jsSlice (14 - 13) (14 + 1) risingSeries)). 0 \<le> c"
  by code_simp

lemma rising_rsi: "rsi (calculateTechnicalIndicators risingSeries ! 14) \<noteq> None"
  by (simp add: indicators_nth risingSeries_def rsi_indicatorAt)

theorem rsi_bounds_witness:
  "14 < length risingSeries
   \<and> rsi (calculateTechnicalIndicators risingSeries ! 14) = Some (100 - 100 / (1 + 100))"
proof -
  have h: "14 < length risingSeries" by (simp add: risingSeries_def)
  obtain r where r: "rsi (calculateTechnicalIndicators risingSeries ! 14) = Some r"
    using rising_rsi by auto
  from rsi_bounds [OF h] r rising_changes have "r = 100 - 100 / (1 + 100)" by blast
  then show ?thesis using h r by simp
qed

lemma variance_fold_nonneg:
  "0 \<le> s \<Longrightarrow> 0 \<le> foldl (\<lambda>s v. fl64 (s + fl64 ((fl64 (v - mu))\<^sup>2))) s vals"
proof (induction vals arbitrary: s)
  case Nil
  then show ?case by simp
next
  case (Cons v vals)
  have "0 \<le> fl64 ((fl64 (v - mu))\<^sup>2)" by (rule fl64_nonneg) simp
  then have "0 \<le> fl64 (s + fl64 ((fl64 (v - mu))\<^sup>2))"
    using Cons.prems by (intro fl64_nonneg) simp
  then show ?case unfolding foldl_Cons by (rule Cons.IH)
qed

lemma variance20_nonneg: "0 \<le> variance20 vals mu"
  unfolding variance20_def
  using variance_fold_nonneg [of 0 mu vals] by (intro fl64_nonneg) simp

lemma bollinger_indicatorAt:
  "19 \<le> i \<Longrightarrow> fl64 (closeSum (jsSlice (i - 19) (i + 1) arr) / 20) \<noteq> 0 \<Longrightarrow>
   sma20 (indicatorAt arr i) = Some (fl64 (closeSum (jsSlice (i - 19) (i + 1) arr) / 20))
   \<and> upperBand (indicatorAt arr i)
       = Some (fl64 (fl64 (closeSum (jsSlice (i - 19) (i + 1) arr) / 20)
           + fl64 (2 * fl64 (sqrt (variance20 (map (\<lambda>d. toNum (close d)) (jsSlice (i - 19) (i + 1) arr))
                      (fl64 (closeSum (jsSlice (i - 19) (i + 1) arr) / 20)))))))
   \<and> lowerBand (indicatorAt arr i)
       = Some (fl64 (fl64 (closeSum (jsSlice (i - 19) (i + 1) arr) / 20)
           - fl64 (2 * fl64 (sqrt (variance20 (map (\<lambda>d. toNum (close d)) (jsSlice (i - 19) (i + 1) arr))
                      (fl64 (closeSum (jsSlice (i - 19) (i + 1) arr) / 20)))))))
   \<and> volatility (indicatorAt arr i)
       = Some (fl64 (sqrt (variance20 (map (\<lambda>d. toNum (close d)) (jsSlice (i - 19) (i + 1) arr))
                      (fl64 (closeSum (jsSlice (i - 19) (i + 1) arr) / 20)))))"
  by (simp add: indicatorAt_def Let_def spreadRow_def)

lemma bollinger_undefined:
  "\<not> (19 \<le> i \<and> fl64 (closeSum (jsSlice (i - 19) (i + 1) arr) / 20) \<noteq> 0) \<Longrightarrow>
   upperBand (indicatorAt arr i) = None \<and> lowerBand (indicatorAt arr i) = None
   \<and> volatility (indicatorAt arr i) = None"
  by (auto simp add: indicatorAt_def Let_def spreadRow_def)

lemma window20: "19 \<le> i \<Longrightarrow> jsSlice (i - 19) (i + 1) arr = take 20 (drop (i - 19) arr)"
  by (simp add: jsSlice_def)

lemma band_error:
  "\<bar>(fl64 (m + t) - fl64 (m - t)) - 2 * t\<bar> \<le> (\<bar>m + t\<bar> + \<bar>m - t\<bar>) / 2 ^ 53"
proof -
  have "\<bar>(fl64 (m + t) - fl64 (m - t)) - 2 * t\<bar>
      = \<bar>(fl64 (m + t) - (m + t)) - (fl64 (m - t) - (m - t))\<bar>" by simp
  also have "\<dots> \<le> \<bar>fl64 (m + t) - (m + t)\<bar> + \<bar>fl64 (m - t) - (m - t)\<bar>"
    by (rule abs_triangle_ineq4)
  also have "\<dots> \<le> \<bar>m + t\<bar> / 2 ^ 53 + \<bar>m - t\<bar> / 2 ^ 53"
    using fl64_err [of "m + t"] fl64_err [of "m - t"] by linarith
  finally show ?thesis by (simp add: add_divide_distrib)
qed

text \<open>
  Claim C6, as amended. Wherever the output record at index \<open>i\<close> has both Bollinger bands,
  it has \<open>sma20\<close> (\<open>m\<close>) and \<open>volatility\<close> (\<open>v\<close>) too, \<open>i \<ge> 19\<close>, the volatility is not
  negative and the moving average lies between the bands. The upper band is the double
  nearest to \<open>m + 2 v\<close> and the lower band the double nearest to \<open>m - 2 v\<close>, so that their
  difference is \<open>4 v\<close> up to these two roundings, not exactly. \<open>m\<close> is the computed mean of
  the twenty closes \<open>i - 19 .. i\<close> and \<open>v\<close> the computed square root of their computed
  mean squared deviation from \<open>m\<close> (the population standard deviation), every operation
  rounded as the program does.
\<close>

theorem bollinger_bands:
  assumes "i < length arr"
    and "upperBand (calculateTechnicalIndicators arr ! i) = Some u"
    and "lowerBand (calculateTechnicalIndicators arr ! i) = Some l"
  shows "\<exists>m v. sma20 (calculateTechnicalIndicators arr ! i) = Some m
           \<and> volatility (calculateTechnicalIndicators arr ! i) = Some v
           \<and> 19 \<le> i \<and> 0 \<le> v \<and> l \<le> m \<and> m \<le> u
           \<and> u = fl64 (m + 2 * v) \<and> l = fl64 (m - 2 * v)
           \<and> \<bar>(u - l) - 4 * v\<bar> \<le> (\<bar>m + 2 * v\<bar> + \<bar>m - 2 * v\<bar>) / 2 ^ 53
           \<and> m = fl64 (foldl (\<lambda>s d. fl64 (s + toNum (close d))) 0
                          (take 20 (drop (i - 19) arr)) / 20)
           \<and> v = fl64 (sqrt (fl64 (foldl (\<lambda>s d. fl64 (s + fl64 ((fl64 (toNum (close d) - m))\<^sup>2))) 0
                                 (take 20 (drop (i - 19) arr)) / 20)))"
proof -
  let ?win = "jsSlice (i - 19) (i + 1) arr"
  let ?m = "fl64 (closeSum ?win / 20)"
  let ?v = "fl64 (sqrt (variance20 (map (\<lambda>d. toNum (close d)) ?win) ?m))"
  have at: "calculateTechnicalIndicators arr ! i = indicatorAt arr i"
    using assms(1) by (rule indicators_nth)
  have def: "19 \<le> i \<and> ?m \<noteq> 0"
    using bollinger_undefined [of i arr] assms(2) unfolding at by auto
  note b = bollinger_indicatorAt [of i arr, OF conjunct1 [OF def] conjunct2 [OF def]]
  have v0: "0 \<le> ?v" by (intro fl64_nonneg real_sqrt_ge_zero variance20_nonneg)
  have tw: "fl64 (2 * ?v) = 2 * ?v" by (simp only: fl64_double fl64_idem)
  have u: "u = fl64 (?m + 2 * ?v)" and l: "l = fl64 (?m - 2 * ?v)"
    using b assms(2,3) unfolding at tw by simp_all
  have mm: "fl64 ?m = ?m" by (rule fl64_idem)
  have "fl64 ?m \<le> fl64 (?m + 2 * ?v)" using v0 by (intro fl64_mono) simp
  then have mu: "?m \<le> u" unfolding mm u .
  have "fl64 (?m - 2 * ?v) \<le> fl64 ?m" using v0 by (intro fl64_mono) simp
  then have lm: "l \<le> ?m" unfolding mm l .
  have er: "\<bar>(u - l) - 4 * ?v\<bar> \<le> (\<bar>?m + 2 * ?v\<bar> + \<bar>?m - 2 * ?v\<bar>) / 2 ^ 53"
    unfolding u l using band_error [of ?m "2 * ?v"] by simp
  have w: "?win = take 20 (drop (i - 19) arr)" by (rule window20 [OF conjunct1 [OF def]])
  have m: "?m = fl64 (foldl (\<lambda>s d. fl64 (s + toNum (close d))) 0
                          (take 20 (drop (i - 19) arr)) / 20)"
    unfolding w closeSum_def ..
  have v: "?v = fl64 (sqrt (fl64 (foldl (\<lambda>s d. fl64 (s + fl64 ((fl64 (toNum (close d) - ?m))\<^sup>2))) 0
                                 (take 20 (drop (i - 19) arr)) / 20)))"
    unfolding variance20_def foldl_map w ..
  have s: "sma20 (calculateTechnicalIndicators arr ! i) = Some ?m"
    and vo: "volatility (calculateTechnicalIndicators arr ! i) = Some ?v"
    using b unfolding at by simp_all
  note i19 = conjunct1 [OF def]
  show ?thesis
    apply (rule exI [of _ ?m], rule exI [of _ ?v])
    using s vo i19 v0 lm mu u l er m v by (intro conjI)
qed

lemma zigzag_nth:
  "calculateTechnicalIndicators zigzagSeries ! 19 = indicatorAt zigzagSeries 19"
  by (simp add: indicators_nth zigzagSeries_def)

lemma zigzag_window: "jsSlice (19 - 19) (19 + 1) zigzagSeries = zigzagSeries"
  by (simp add: jsSlice_def zigzagSeries_def)

lemma zigzag_sum: "closeSum zigzagSeries = 40"
  by (simp add: closeSum_def zigzagSeries_def mkRow_def fl64_simps)

lemma zigzag_mean: "fl64 (40 / 20) = 2"
  by (simp add: fl64_simps)

lemma zigzag_variance: "variance20 (map (\<lambda>d. toNum (close d)) zigzagSeries) 2 = 1"
  by (simp add: variance20_def zigzagSeries_def mkRow_def fl64_simps)

lemma zigzag_upper: "upperBand (calculateTechnicalIndicators zigzagSeries ! 19) = Some 4"
  and zigzag_lower: "lowerBand (calculateTechnicalIndicators zigzagSeries ! 19) = Some 0"
  using bollinger_indicatorAt [of 19 zigzagSeries]
  unfolding zigzag_nth zigzag_window zigzag_sum zigzag_mean zigzag_variance
  by (simp_all add: fl64_simps)

theorem bollinger_bands_witness:
  "19 < length zigzagSeries
   \<and> upperBand (calculateTechnicalIndicators zigzagSeries ! 19) = Some 4
   \<and> lowerBand (calculateTechnicalIndicators zigzagSeries ! 19) = Some 0
   \<and> sma20 (calculateTechnicalIndicators zigzagSeries ! 19) = Some 2
   \<and> volatility (calculateTechnicalIndicators zigzagSeries ! 19) = Some 1"
proof -
  have h: "19 < length zigzagSeries" by (simp add: zigzagSeries_def)
  from bollinger_bands [OF h zigzag_upper zigzag_lower]
  obtain m v where sv: "sma20 (calculateTechnicalIndicators zigzagSeries ! 19) = Some m"
    "volatility (calculateTechnicalIndicators zigzagSeries ! 19) = Some v"
    and o: "0 \<le> m" "m \<le> 4" and e: "\<bar>(4 - 0) - 4 * v\<bar> \<le> (\<bar>m + 2 * v\<bar> + \<bar>m - 2 * v\<bar>) / 2 ^ 53"
    by blast
  have "sma20 (calculateTechnicalIndicators zigzagSeries ! 19) = Some 2"
    "volatility (calculateTechnicalIndicators zigzagSeries ! 19) = Some 1"
    using bollinger_indicatorAt [of 19 zigzagSeries]
    unfolding zigzag_nth zigzag_window zigzag_sum zigzag_mean zigzag_variance
    by (simp_all add: fl64_simps)
  then show ?thesis using h zigzag_upper zigzag_lower sv o by simp
qed

text \<open>
  The claim as stated fails on twenty rows with closes \<open>10, 11, 12, 13, 14\<close> four times.
  The mean is \<open>12\<close> and the variance \<open>2\<close>, both exact; the volatility is the double
  nearest to the square root of \<open>2\<close>, and the bands, rounded to doubles between \<open>8\<close> and
  \<open>16\<close>, differ by one unit in the last place of \<open>4\<close> times the volatility.
\<close>

lemma stair_nth:
  "calculateTechnicalIndicators stairSeries ! 19 = indicatorAt stairSeries 19"
  by (simp add: indicators_nth stairSeries_def)

lemma stair_window: "jsSlice (19 - 19) (19 + 1) stairSeries = stairSeries"
  by (simp add: jsSlice_def stairSeries_def)

lemma stair_sum: "closeSum stairSeries = 240"
  by (simp add: closeSum_def stairSeries_def mkRow_def fl64_simps)

lemma stair_mean: "fl64 (240 / 20) = 12"
  by (simp add: fl64_simps)

lemma stair_variance: "variance20 (map (\<lambda>d. toNum (close d)) stairSeries) 12 = 2"
  by (simp add: variance20_def stairSeries_def mkRow_def fl64_simps)

lemma stair_twice: "fl64 (2 * (6369051672525773 / 2 ^ 52)) = 6369051672525773 / 2 ^ 51"
proof -
  have "fl64 (of_int 6369051672525773 / 2 ^ 52) = of_int 6369051672525773 / 2 ^ 52"
    by (rule fl64_dyadic) simp
  then show ?thesis unfolding fl64_double by simp
qed

lemma stair_up: "fl64 (12 + 6369051672525773 / 2 ^ 51) = 8347662359187187 / 2 ^ 49"
proof -
  have "fl64 (12 + 6369051672525773 / 2 ^ 51) = of_int 8347662359187187 / 2 ^ (52 - 3)"
    by (rule fl64_eval) simp_all
  then show ?thesis by simp
qed

lemma stair_lo: "fl64 (12 - 6369051672525773 / 2 ^ 51) = 5163136522924301 / 2 ^ 49"
proof -
  have "fl64 (12 - 6369051672525773 / 2 ^ 51) = of_int 5163136522924301 / 2 ^ (52 - 3)"
    by (rule fl64_eval) simp_all
  then show ?thesis by simp
qed

theorem bollinger_difference_inexact:
  "upperBand (calculateTechnicalIndicators stairSeries ! 19) = Some (8347662359187187 / 2 ^ 49)
   \<and> lowerBand (calculateTechnicalIndicators stairSeries ! 19) = Some (5163136522924301 / 2 ^ 49)
   \<and> volatility (calculateTechnicalIndicators stairSeries ! 19) = Some (6369051672525773 / 2 ^ 52)
   \<and> (8347662359187187 / 2 ^ 49 - 5163136522924301 / 2 ^ 49 :: real)
       \<noteq> 4 * (6369051672525773 / 2 ^ 52)"
proof -
  have "(19::nat) \<le> 19" by simp
  moreover have "fl64 (closeSum (jsSlice (19 - 19) (19 + 1) stairSeries) / 20) \<noteq> 0"
    unfolding stair_window stair_sum stair_mean by simp
  ultimately have b: "upperBand (indicatorAt stairSeries 19) = Some (8347662359187187 / 2 ^ 49)
     \<and> lowerBand (indicatorAt stairSeries 19) = Some (5163136522924301 / 2 ^ 49)
     \<and> volatility (indicatorAt stairSeries 19) = Some (6369051672525773 / 2 ^ 52)"
    using bollinger_indicatorAt [of 19 stairSeries]
    unfolding stair_window stair_sum stair_mean stair_variance fl64_sqrt2 stair_twice
      stair_up stair_lo
    by blast
  show ?thesis unfolding stair_nth using b by simp
qed

section \<open>Regression trainer: the divisions\<close>

lemma sumXY_fold_Num:
  "k + length xs \<le> length ys \<Longrightarrow>
   foldl (\<lambda>s (i, x). jadd s (jmul x (jnth (map Num ys) i))) (Num a) (enumerate k (map Num xs))
   = Num (a + (\<Sum>j < length xs. xs ! j * ys ! (k + j)))"
proof (induction xs arbitrary: k a)
  case Nil
  then show ?case by simp
next
  case (Cons x xs)
  have k: "k < length ys" and k': "Suc k + length xs \<le> length ys"
    using Cons.prems by simp_all
  have step: "jadd (Num a) (jmul (Num x) (jnth (map Num ys) k)) = Num (a + x * ys ! k)"
    using k by (simp add: jnth_def)
  have "(\<Sum>j < Suc (length xs). (x # xs) ! j * ys ! (k + j))
      = x * ys ! k + (\<Sum>j < length xs. xs ! j * ys ! (Suc k + j))"
    by (subst sum.lessThan_Suc_shift) simp
  then show ?case
    using Cons.IH [OF k'] step by (simp add: add.assoc)
qed

lemma sumXY_Num:
  "length xs = length ys \<Longrightarrow>
   sumXY (map Num xs) (map Num ys) = Num (\<Sum>j < length xs. xs ! j * ys ! j)"
  using sumXY_fold_Num [of 0 xs ys 0] unfolding sumXY_def by simp

lemma sumX2_Num: "sumX2 (map Num xs) = Num (\<Sum>x \<leftarrow> xs. x * x)"
proof -
  have "sumX2 (map Num xs) = foldl (\<lambda>s x. jadd s (Num (x * x))) (Num 0) xs"
    unfolding sumX2_def by (simp add: foldl_map)
  then show ?thesis by (simp add: foldl_jadd_Num)
qed

text \<open>
  On a non-empty partition of finite numbers no division of the trainer is by zero: the
  slope's denominator is replaced by \<open>1\<close> when it is \<open>0\<close>, and \<open>n\<close> is positive.
\<close>

lemma trainLinearRegression_nonempty:
  assumes "length xs = length ys" and "xs \<noteq> []"
  defines "n \<equiv> real (length xs)"
    and "sx \<equiv> sum_list xs" and "sy \<equiv> sum_list ys"
    and "sxy \<equiv> (\<Sum>j < length xs. xs ! j * ys ! j)"
    and "sx2 \<equiv> (\<Sum>x \<leftarrow> xs. x * x)"
  defines "d \<equiv> n * sx2 - sx * sx"
  defines "sl \<equiv> (n * sxy - sx * sy) / (if d = 0 then 1 else d)"
  shows "trainLinearRegression (map Num xs) (map Num ys)
         = \<lparr>slope = Num sl, intercept = Num ((sy - sl * sx) / n)\<rparr>"
proof -
  have n: "n \<noteq> 0" using assms(2) by (simp add: n_def)
  show ?thesis
    unfolding trainLinearRegression_def Let_def
    using n assms(1)
    by (simp add: jsum_Num sumXY_Num sumX2_Num jsub_def n_def sx_def sy_def sxy_def sx2_def
        d_def sl_def)
qed

text \<open>
  Claim C7 on the empty train partition (the first \<open>floor (0.8 * N)\<close> rows of a series of
  at most one row): every sum is \<open>0\<close>, the guarded denominator is \<open>1\<close>, the slope is
  \<open>0 / 1\<close>, and the intercept is \<open>(0 - 0 * 0) / n\<close> with \<open>n = 0\<close>, a division of zero by
  zero that yields \<open>NaN\<close>. The trainer of \<open>main.jsx\<close> has no guard at all and divides by
  zero for the slope too, also on a single point.
\<close>

theorem trainLinearRegression_empty_partition:
  "trainLinearRegression [] [] = \<lparr>slope = Num 0, intercept = NaN\<rparr>
   \<and> trainLinearRegression_main [] [] = \<lparr>slope = NaN, intercept = NaN\<rparr>
   \<and> trainLinearRegression_main [Num 0] [Num 5] = \<lparr>slope = NaN, intercept = NaN\<rparr>"
  by (simp add: trainLinearRegression_def trainLinearRegression_main_def jsum_def sumXY_def
      sumX2_def jsub_def jnth_def Let_def)

section \<open>Forecaster\<close>

lemma forecast_loop_eq:
  "forecast_loop lin poly len i future
   = future @ map (forecastPointAt lin poly len) [i..<31]"
proof (induction lin poly len i future rule: forecast_loop.induct)
  case (1 lin poly len i future)
  show ?case
  proof (cases "i \<le> 30")
    case True
    then have "[i..<31] = i # [i + 1..<31]" by (simp add: upt_conv_Cons)
    with True 1 show ?thesis by simp
  next
    case False
    then show ?thesis by simp
  qed
qed

lemma forecast_eq: "forecast lin poly len = map (forecastPointAt lin poly len) [1..<31]"
  by (simp add: forecast_def forecast_loop_eq del: forecast_loop.simps)

text \<open>
  Claim C8. For a series of \<open>len > 0\<close> rows the last observed index is \<open>L = len - 1\<close>. The
  forecast has thirty points; the point of step \<open>s\<close> (\<open>1 \<le> s \<le> 30\<close>) is numbered \<open>s\<close>,
  holds both models evaluated at index \<open>L + s\<close> and, as its ensemble value, the sum of the
  two divided by \<open>2\<close>. In particular the linear component of the first point is the linear
  model's prediction at \<open>L + 1\<close>.
\<close>

theorem forecast_points:
  assumes "1 \<le> s" and "s \<le> 30" and "0 < len"
  shows "length (forecast lin poly len) = 30
       \<and> day (forecast lin poly len ! (s - 1)) = s
       \<and> linear_v (forecast lin poly len ! (s - 1)) = linPredict lin (Num (real ((len - 1) + s)))
       \<and> polynomial_v (forecast lin poly len ! (s - 1))
           = polyPredict poly (Num (real ((len - 1) + s)))
       \<and> ensemble_v (forecast lin poly len ! (s - 1))
           = jdiv (jadd (linPredict lin (Num (real ((len - 1) + s))))
                        (polyPredict poly (Num (real ((len - 1) + s))))) (Num 2)
       \<and> linear_v (forecast lin poly len ! 0) = linPredict lin (Num (real ((len - 1) + 1)))"
proof -
  have nth: "forecast lin poly len ! (s - 1) = forecastPointAt lin poly len s"
    using assms(1,2) by (simp add: forecast_eq)
  have nth0: "forecast lin poly len ! 0 = forecastPointAt lin poly len 1"
    by (simp add: forecast_eq)
  have idx: "len + s - 1 = (len - 1) + s" "len + 1 - 1 = (len - 1) + 1"
    using assms(3) by simp_all
  show ?thesis
    unfolding nth nth0 forecastPointAt_def Let_def idx by (simp add: forecast_eq)
qed

theorem forecast_points_witness:
  "(1::nat) \<le> 3 \<and> (3::nat) \<le> 30 \<and> (0::nat) < 10
   \<and> linear_v (forecast exampleLine exampleParabola 10 ! 0) = Num 25
   \<and> linear_v (forecast exampleLine exampleParabola 10 ! 2) = Num 29
   \<and> polynomial_v (forecast exampleLine exampleParabola 10 ! 2) = Num 12
   \<and> ensemble_v (forecast exampleLine exampleParabola 10 ! 2) = Num (41 / 2)"
  using forecast_points [of 3 10 exampleLine exampleParabola]
  by (simp add: linPredict_def polyPredict_def exampleLine_def exampleParabola_def)

section \<open>Signal engine: confidence\<close>

text \<open>
  Claim C9. On a series of at least two indicator records whose last two records have
  \<open>rsi\<close>, \<open>sma20\<close> and \<open>sma50\<close> defined, \<open>generateSignal\<close> returns a signal whose
  \<open>probability\<close> is \<open>50 + 20 * k\<close> capped at \<open>90\<close>, where \<open>k\<close> counts the rule families
  with a vote: the RSI family votes when the current RSI is below \<open>35\<close> or above \<open>65\<close>, the
  crossover family when the current averages are non-zero and \<open>sma20\<close> has crossed \<open>sma50\<close>
  upward or downward between the previous and the current record. The value is one of
  \<open>50\<close>, \<open>70\<close>, \<open>90\<close>.
\<close>

theorem generateSignal_confidence:
  assumes "2 \<le> length rows"
    and "rsi (rows ! (length rows - 1)) = Some r"
    and "sma20 (rows ! (length rows - 1)) = Some a"
    and "sma50 (rows ! (length rows - 1)) = Some b"
    and "sma20 (rows ! (length rows - 2)) = Some c"
    and "sma50 (rows ! (length rows - 2)) = Some d"
  shows "\<exists>sg. generateSignal rows = Inr sg
           \<and> probability sg
              = min 90 (50 + 20 * ((if r < 35 \<or> r > 65 then 1 else 0)
                   + (if a \<noteq> 0 \<and> b \<noteq> 0 \<and> ((b < a \<and> c \<le> d) \<or> (a < b \<and> d \<le> c))
                      then 1 else 0)))
           \<and> probability sg \<in> {50, 70, 90}"
  using assms by (auto simp add: generateSignal_def Let_def)

lemma oversold_action:
  "\<forall>sg. generateSignal oversoldRows = Inr sg \<longrightarrow> action sg = BUY"
  by (simp add: generateSignal_def oversoldRows_def mkIndicator_def Let_def)

theorem generateSignal_confidence_witness:
  "2 \<le> length oversoldRows
   \<and> (\<exists>sg. generateSignal oversoldRows = Inr sg \<and> probability sg = 70 \<and> action sg = BUY)"
proof -
  have h: "2 \<le> length oversoldRows" by (simp add: oversoldRows_def)
  have f: "rsi (oversoldRows ! (length oversoldRows - 1)) = Some 28"
    "sma20 (oversoldRows ! (length oversoldRows - 1)) = Some 98"
    "sma50 (oversoldRows ! (length oversoldRows - 1)) = Some 101"
    "sma20 (oversoldRows ! (length oversoldRows - 2)) = Some 99"
    "sma50 (oversoldRows ! (length oversoldRows - 2)) = Some 101"
    by (simp_all add: oversoldRows_def mkIndicator_def)
  from generateSignal_confidence [OF h f]
  obtain sg where sg: "generateSignal oversoldRows = Inr sg" and "probability sg = 70"
    by auto
  then show ?thesis using h oversold_action by auto
qed

section \<open>Cleaning engine: forward fill\<close>

lemma ffill_step_eq:
  assumes "0 < i \<longrightarrow> cleaned ! (i - 1) \<noteq> cleaned ! i"
  shows "ffill_step cleaned (h, iss) i =
     (h(cleaned ! i := (h (cleaned ! i))
          \<lparr>close := (if close (h (cleaned ! i)) = None \<and> 0 < i then close (h (cleaned ! (i - 1)))
                     else close (h (cleaned ! i))),
           volume := (if volume (h (cleaned ! i)) = None \<and> 0 < i then volume (h (cleaned ! (i - 1)))
                      else volume (h (cleaned ! i)))\<rparr>),
      iss\<lparr>nulls := nulls iss + (if close (h (cleaned ! i)) = None \<and> 0 < i then 1 else 0)
                      + (if volume (h (cleaned ! i)) = None \<and> 0 < i then 1 else 0)\<rparr>)"
  using assms by (auto simp add: ffill_step_def Let_def fun_eq_iff)

lemma distinct_nth_notin_take:
  "distinct xs \<Longrightarrow> k < length xs \<Longrightarrow> xs ! k \<notin> set (take k xs)"
  by (auto simp: in_set_conv_nth nth_eq_iff_index_eq)

lemma ffill_prefix:
  assumes d: "distinct cleaned" and k: "k \<le> length cleaned"
  shows "\<exists>h' iss'. foldl (ffill_step cleaned) (h, iss) [0..<k] = (h', iss')
     \<and> (\<forall>a. a \<notin> set (take k cleaned) \<longrightarrow> h' a = h a)
     \<and> (\<forall>a. date (h' a) = date (h a) \<and> openp (h' a) = openp (h a)
            \<and> high (h' a) = high (h a) \<and> low (h' a) = low (h a))
     \<and> (\<forall>j<k. close (h' (cleaned ! j))
            = (if close (h (cleaned ! j)) = None \<and> 0 < j then close (h' (cleaned ! (j - 1)))
               else close (h (cleaned ! j))))
     \<and> (\<forall>j<k. volume (h' (cleaned ! j))
            = (if volume (h (cleaned ! j)) = None \<and> 0 < j then volume (h' (cleaned ! (j - 1)))
               else volume (h (cleaned ! j))))
     \<and> iss' = iss\<lparr>nulls := nulls iss
            + length (filter (\<lambda>j. 0 < j \<and> close (h (cleaned ! j)) = None) [0..<k])
            + length (filter (\<lambda>j. 0 < j \<and> volume (h (cleaned ! j)) = None) [0..<k])\<rparr>"
  using k
proof (induction k)
  case 0
  then show ?case by simp
next
  case (Suc k)
  then have klt: "k < length cleaned" by simp
  from Suc.IH klt obtain hk issk where
    fold: "foldl (ffill_step cleaned) (h, iss) [0..<k] = (hk, issk)"
    and frame: "\<And>a. a \<notin> set (take k cleaned) \<Longrightarrow> hk a = h a"
    and fields: "\<And>a. date (hk a) = date (h a) \<and> openp (hk a) = openp (h a)
            \<and> high (hk a) = high (h a) \<and> low (hk a) = low (h a)"
    and cl: "\<And>j. j < k \<Longrightarrow> close (hk (cleaned ! j))
            = (if close (h (cleaned ! j)) = None \<and> 0 < j then close (hk (cleaned ! (j - 1)))
               else close (h (cleaned ! j)))"
    and vo: "\<And>j. j < k \<Longrightarrow> volume (hk (cleaned ! j))
            = (if volume (h (cleaned ! j)) = None \<and> 0 < j then volume (hk (cleaned ! (j - 1)))
               else volume (h (cleaned ! j)))"
    and cnt: "issk = iss\<lparr>nulls := nulls iss
            + length (filter (\<lambda>j. 0 < j \<and> close (h (cleaned ! j)) = None) [0..<k])
            + length (filter (\<lambda>j. 0 < j \<and> volume (h (cleaned ! j)) = None) [0..<k])\<rparr>"
    by (auto simp: less_imp_le)
  let ?a = "cleaned ! k"
  have notin: "?a \<notin> set (take k cleaned)" using d klt by (rule distinct_nth_notin_take)
  have hka: "hk ?a = h ?a" using notin by (rule frame)
  have ne: "\<And>j. j < k \<Longrightarrow> cleaned ! j \<noteq> ?a"
    using d klt by (simp add: nth_eq_iff_index_eq)
  have prev: "0 < k \<longrightarrow> cleaned ! (k - 1) \<noteq> cleaned ! k" using ne [of "k - 1"] by simp
  define h' where "h' = hk(?a := (hk ?a)
          \<lparr>close := (if close (hk ?a) = None \<and> 0 < k then close (hk (cleaned ! (k - 1)))
                     else close (hk ?a)),
           volume := (if volume (hk ?a) = None \<and> 0 < k then volume (hk (cleaned ! (k - 1)))
                      else volume (hk ?a))\<rparr>)"
  define iss' where "iss' = issk\<lparr>nulls := nulls issk + (if close (hk ?a) = None \<and> 0 < k then 1 else 0)
                      + (if volume (hk ?a) = None \<and> 0 < k then 1 else 0)\<rparr>"
  have step: "foldl (ffill_step cleaned) (h, iss) [0..<Suc k] = (h', iss')"
    using fold ffill_step_eq [OF prev, of hk issk] by (simp add: h'_def iss'_def)
  have old: "\<And>j. j < k \<Longrightarrow> h' (cleaned ! j) = hk (cleaned ! j)"
    using ne by (simp add: h'_def)
  have new_c: "close (h' ?a) = (if close (h ?a) = None \<and> 0 < k then close (h' (cleaned ! (k - 1)))
                     else close (h ?a))"
    using old [of "k - 1"] hka by (cases "0 < k") (simp_all add: h'_def)
  have new_v: "volume (h' ?a) = (if volume (h ?a) = None \<and> 0 < k then volume (h' (cleaned ! (k - 1)))
                     else volume (h ?a))"
    using old [of "k - 1"] hka by (cases "0 < k") (simp_all add: h'_def)
  have c1: "\<forall>a. a \<notin> set (take (Suc k) cleaned) \<longrightarrow> h' a = h a"
    using frame klt by (simp add: take_Suc_conv_app_nth h'_def)
  have c2: "\<forall>a. date (h' a) = date (h a) \<and> openp (h' a) = openp (h a)
            \<and> high (h' a) = high (h a) \<and> low (h' a) = low (h a)"
    using fields by (simp add: h'_def)
  have c3: "\<forall>j<Suc k. close (h' (cleaned ! j))
            = (if close (h (cleaned ! j)) = None \<and> 0 < j then close (h' (cleaned ! (j - 1)))
               else close (h (cleaned ! j)))"
  proof (intro allI impI)
    fix j assume "j < Suc k"
    then consider "j < k" | "j = k" by linarith
    then show "close (h' (cleaned ! j))
            = (if close (h (cleaned ! j)) = None \<and> 0 < j then close (h' (cleaned ! (j - 1)))
               else close (h (cleaned ! j)))"
    proof cases
      case 1
      then show ?thesis using old [of j] old [of "j - 1"] cl [of j] by simp
    next
      case 2
      then show ?thesis using new_c by simp
    qed
  qed
  have c4: "\<forall>j<Suc k. volume (h' (cleaned ! j))
            = (if volume (h (cleaned ! j)) = None \<and> 0 < j then volume (h' (cleaned ! (j - 1)))
               else volume (h (cleaned ! j)))"
  proof (intro allI impI)
    fix j assume "j < Suc k"
    then consider "j < k" | "j = k" by linarith
    then show "volume (h' (cleaned ! j))
            = (if volume (h (cleaned ! j)) = None \<and> 0 < j then volume (h' (cleaned ! (j - 1)))
               else volume (h (cleaned ! j)))"
    proof cases
      case 1
      then show ?thesis using old [of j] old [of "j - 1"] vo [of j] by simp
    next
      case 2
      then show ?thesis using new_v by simp
    qed
  qed
  have c5: "iss' = iss\<lparr>nulls := nulls iss
            + length (filter (\<lambda>j. 0 < j \<and> close (h (cleaned ! j)) = None) [0..<Suc k])
            + length (filter (\<lambda>j. 0 < j \<and> volume (h (cleaned ! j)) = None) [0..<Suc k])\<rparr>"
    by (simp add: iss'_def cnt hka)
  show ?case using step c1 c2 c3 c4 c5 by blast
qed

lemma ffill_char:
  assumes "distinct cleaned"
  shows "(\<forall>j<length cleaned. close (fst (ffill cleaned (h, iss)) (cleaned ! j))
            = (if close (h (cleaned ! j)) = None \<and> 0 < j
               then close (fst (ffill cleaned (h, iss)) (cleaned ! (j - 1)))
               else close (h (cleaned ! j))))
     \<and> (\<forall>j<length cleaned. volume (fst (ffill cleaned (h, iss)) (cleaned ! j))
            = (if volume (h (cleaned ! j)) = None \<and> 0 < j
               then volume (fst (ffill cleaned (h, iss)) (cleaned ! (j - 1)))
               else volume (h (cleaned ! j))))
     \<and> snd (ffill cleaned (h, iss)) = iss\<lparr>nulls := nulls iss
            + length (filter (\<lambda>j. 0 < j \<and> close (h (cleaned ! j)) = None) [0..<length cleaned])
            + length (filter (\<lambda>j. 0 < j \<and> volume (h (cleaned ! j)) = None) [0..<length cleaned])\<rparr>
     \<and> (\<forall>a. a \<notin> set cleaned \<longrightarrow> fst (ffill cleaned (h, iss)) a = h a)"
proof -
  from ffill_prefix [OF assms order_refl, of h iss] obtain h' iss' where
    f: "foldl (ffill_step cleaned) (h, iss) [0..<length cleaned] = (h', iss')"
    and fr: "\<forall>a. a \<notin> set (take (length cleaned) cleaned) \<longrightarrow> h' a = h a"
    and c: "\<forall>j<length cleaned. close (h' (cleaned ! j))
            = (if close (h (cleaned ! j)) = None \<and> 0 < j then close (h' (cleaned ! (j - 1)))
               else close (h (cleaned ! j)))"
    and v: "\<forall>j<length cleaned. volume (h' (cleaned ! j))
            = (if volume (h (cleaned ! j)) = None \<and> 0 < j then volume (h' (cleaned ! (j - 1)))
               else volume (h (cleaned ! j)))"
    and n: "iss' = iss\<lparr>nulls := nulls iss
            + length (filter (\<lambda>j. 0 < j \<and> close (h (cleaned ! j)) = None) [0..<length cleaned])
            + length (filter (\<lambda>j. 0 < j \<and> volume (h (cleaned ! j)) = None) [0..<length cleaned])\<rparr>"
    by blast
  have e: "ffill cleaned (h, iss) = (h', iss')" by (simp add: ffill_def f)
  have fr': "\<forall>a. a \<notin> set cleaned \<longrightarrow> h' a = h a" using fr by simp
  show ?thesis unfolding e fst_conv snd_conv using c v n fr' by (intro conjI)
qed

lemma fill_run:
  fixes c c' :: "nat \<Rightarrow> 'a option"
  assumes rec: "\<forall>i<n. c' i = (if c i = None \<and> 0 < i then c' (i - 1) else c i)"
    and "j \<le> i" and "i < n" and "c j \<noteq> None" and "\<forall>k. j < k \<and> k \<le> i \<longrightarrow> c k = None"
  shows "c' i = c j"
  using assms(2-)
proof (induction i)
  case 0
  then have "j = 0" by simp
  moreover have "c' 0 = c 0" using rec [rule_format, of 0] 0 by simp
  ultimately show ?case by simp
next
  case (Suc i)
  note r = rec [rule_format, of "Suc i", OF Suc.prems(2)]
  show ?case
  proof (cases "j = Suc i")
    case True
    then have "c (Suc i) \<noteq> None" using Suc.prems(3) by simp
    then have "c' (Suc i) = c (Suc i)" using r by auto
    then show ?thesis using True by simp
  next
    case False
    then have ji: "j \<le> i" using Suc.prems(1) by simp
    have "c (Suc i) = None" using Suc.prems(4) False Suc.prems(1) by simp
    then have "c' (Suc i) = c' i" using r by simp
    moreover have "c' i = c j"
    proof (rule Suc.IH [OF ji])
      show "i < n" using Suc.prems(2) by simp
      show "c j \<noteq> None" by (rule Suc.prems(3))
      show "\<forall>k. j < k \<and> k \<le> i \<longrightarrow> c k = None" using Suc.prems(4) by simp
    qed
    ultimately show ?thesis by simp
  qed
qed

text \<open>
  Claim C4. On a deduplicated series (no two rows share a date, so the rows are distinct
  objects) the forward-fill loop leaves, at every index \<open>i\<close>, a close equal to the close it
  leaves at \<open>i - 1\<close> when \<open>i > 0\<close> and the close at \<open>i\<close> was \<open>null\<close>, and the original close
  otherwise; likewise for the volume. Hence a run of nulls after a non-null value receives
  that value throughout, the values at index \<open>0\<close> are left as they are (a null stays null),
  and the counter grows by the number of null closes plus the number of null volumes at
  indices \<open>i > 0\<close>.
\<close>

theorem ffill_forward_fill:
  assumes "distinct (map (\<lambda>a. date (h a)) cleaned)"
  shows "(\<forall>i<length cleaned.
            close (fst (ffill cleaned (h, iss)) (cleaned ! i))
              = (if close (h (cleaned ! i)) = None \<and> 0 < i
                 then close (fst (ffill cleaned (h, iss)) (cleaned ! (i - 1)))
                 else close (h (cleaned ! i)))
          \<and> volume (fst (ffill cleaned (h, iss)) (cleaned ! i))
              = (if volume (h (cleaned ! i)) = None \<and> 0 < i
                 then volume (fst (ffill cleaned (h, iss)) (cleaned ! (i - 1)))
                 else volume (h (cleaned ! i))))
     \<and> (\<forall>j i. j \<le> i \<and> i < length cleaned \<and> close (h (cleaned ! j)) \<noteq> None
            \<and> (\<forall>k. j < k \<and> k \<le> i \<longrightarrow> close (h (cleaned ! k)) = None)
          \<longrightarrow> close (fst (ffill cleaned (h, iss)) (cleaned ! i)) = close (h (cleaned ! j)))
     \<and> (\<forall>j i. j \<le> i \<and> i < length cleaned \<and> volume (h (cleaned ! j)) \<noteq> None
            \<and> (\<forall>k. j < k \<and> k \<le> i \<longrightarrow> volume (h (cleaned ! k)) = None)
          \<longrightarrow> volume (fst (ffill cleaned (h, iss)) (cleaned ! i)) = volume (h (cleaned ! j)))
     \<and> (cleaned \<noteq> [] \<longrightarrow>
           close (fst (ffill cleaned (h, iss)) (cleaned ! 0)) = close (h (cleaned ! 0))
         \<and> volume (fst (ffill cleaned (h, iss)) (cleaned ! 0)) = volume (h (cleaned ! 0)))
     \<and> nulls (snd (ffill cleaned (h, iss))) = nulls iss
          + length (filter (\<lambda>i. 0 < i \<and> close (h (cleaned ! i)) = None) [0..<length cleaned])
          + length (filter (\<lambda>i. 0 < i \<and> volume (h (cleaned ! i)) = None) [0..<length cleaned])"
proof -
  define h' where "h' = fst (ffill cleaned (h, iss))"
  have d: "distinct cleaned" using assms by (simp add: distinct_map)
  note ch = ffill_char [OF d, of h iss, folded h'_def]
  have c: "\<forall>i<length cleaned. close (h' (cleaned ! i))
            = (if close (h (cleaned ! i)) = None \<and> 0 < i then close (h' (cleaned ! (i - 1)))
               else close (h (cleaned ! i)))"
    using ch by (rule conjunct1)
  have v: "\<forall>i<length cleaned. volume (h' (cleaned ! i))
            = (if volume (h (cleaned ! i)) = None \<and> 0 < i then volume (h' (cleaned ! (i - 1)))
               else volume (h (cleaned ! i)))"
    using ch by (elim conjE)
  have "snd (ffill cleaned (h, iss)) = iss\<lparr>nulls := nulls iss
          + length (filter (\<lambda>i. 0 < i \<and> close (h (cleaned ! i)) = None) [0..<length cleaned])
          + length (filter (\<lambda>i. 0 < i \<and> volume (h (cleaned ! i)) = None) [0..<length cleaned])\<rparr>"
    using ch by (elim conjE)
  then have n: "nulls (snd (ffill cleaned (h, iss))) = nulls iss
          + length (filter (\<lambda>i. 0 < i \<and> close (h (cleaned ! i)) = None) [0..<length cleaned])
          + length (filter (\<lambda>i. 0 < i \<and> volume (h (cleaned ! i)) = None) [0..<length cleaned])"
    by simp
  have cv: "\<forall>i<length cleaned.
            close (h' (cleaned ! i))
              = (if close (h (cleaned ! i)) = None \<and> 0 < i then close (h' (cleaned ! (i - 1)))
                 else close (h (cleaned ! i)))
          \<and> volume (h' (cleaned ! i))
              = (if volume (h (cleaned ! i)) = None \<and> 0 < i then volume (h' (cleaned ! (i - 1)))
                 else volume (h (cleaned ! i)))"
    using c v by blast
  have rc: "\<forall>j i. j \<le> i \<and> i < length cleaned \<and> close (h (cleaned ! j)) \<noteq> None
            \<and> (\<forall>k. j < k \<and> k \<le> i \<longrightarrow> close (h (cleaned ! k)) = None)
          \<longrightarrow> close (h' (cleaned ! i)) = close (h (cleaned ! j))"
  proof (intro allI impI, elim conjE)
    fix j i
    assume "j \<le> i" "i < length cleaned" "close (h (cleaned ! j)) \<noteq> None"
      "\<forall>k. j < k \<and> k \<le> i \<longrightarrow> close (h (cleaned ! k)) = None"
    then show "close (h' (cleaned ! i)) = close (h (cleaned ! j))"
      by (rule fill_run [where c = "\<lambda>i. close (h (cleaned ! i))"
            and c' = "\<lambda>i. close (h' (cleaned ! i))", OF c])
  qed
  have rv: "\<forall>j i. j \<le> i \<and> i < length cleaned \<and> volume (h (cleaned ! j)) \<noteq> None
            \<and> (\<forall>k. j < k \<and> k \<le> i \<longrightarrow> volume (h (cleaned ! k)) = None)
          \<longrightarrow> volume (h' (cleaned ! i)) = volume (h (cleaned ! j))"
  proof (intro allI impI, elim conjE)
    fix j i
    assume "j \<le> i" "i < length cleaned" "volume (h (cleaned ! j)) \<noteq> None"
      "\<forall>k. j < k \<and> k \<le> i \<longrightarrow> volume (h (cleaned ! k)) = None"
    then show "volume (h' (cleaned ! i)) = volume (h (cleaned ! j))"
      by (rule fill_run [where c = "\<lambda>i. volume (h (cleaned ! i))"
            and c' = "\<lambda>i. volume (h' (cleaned ! i))", OF v])
  qed
  have z: "cleaned \<noteq> [] \<longrightarrow> close (h' (cleaned ! 0)) = close (h (cleaned ! 0))
         \<and> volume (h' (cleaned ! 0)) = volume (h (cleaned ! 0))"
  proof
    assume "cleaned \<noteq> []"
    then have "0 < length cleaned" by simp
    then show "close (h' (cleaned ! 0)) = close (h (cleaned ! 0))
         \<and> volume (h' (cleaned ! 0)) = volume (h (cleaned ! 0))"
      using c [rule_format, of 0] v [rule_format, of 0] by simp
  qed
  show ?thesis
    unfolding h'_def [symmetric] using cv rc rv z n by (intro conjI)
qed

lemma example_dates: "distinct (map (\<lambda>a. date (exampleHeap a)) [0, 1, 2])"
  by (simp add: exampleHeap_def mkRow_def)

theorem ffill_forward_fill_witness:
  "distinct (map (\<lambda>a. date (exampleHeap a)) [0, 1, 2])
   \<and> close (fst (ffill [0, 1, 2] (exampleHeap, noIssues)) 0) = Some 10
   \<and> close (fst (ffill [0, 1, 2] (exampleHeap, noIssues)) 1) = Some 10
   \<and> close (fst (ffill [0, 1, 2] (exampleHeap, noIssues)) 2) = Some 10
   \<and> volume (fst (ffill [0, 1, 2] (exampleHeap, noIssues)) 1) = Some 5
   \<and> volume (fst (ffill [0, 1, 2] (exampleHeap, noIssues)) 2) = Some 8
   \<and> nulls (snd (ffill [0, 1, 2] (exampleHeap, noIssues))) = 3"
proof -
  note t = ffill_forward_fill [OF example_dates, of noIssues]
  note p = t [THEN conjunct1, rule_format]
  note n = t [THEN conjunct2, THEN conjunct2, THEN conjunct2, THEN conjunct2]
  have p0: "close (fst (ffill [0, 1, 2] (exampleHeap, noIssues)) 0) = Some 10"
    using p [of 0] by (simp add: exampleHeap_def mkRow_def)
  have p1: "close (fst (ffill [0, 1, 2] (exampleHeap, noIssues)) 1) = Some 10
      \<and> volume (fst (ffill [0, 1, 2] (exampleHeap, noIssues)) 1) = Some 5"
    using p [of 0] p [of 1] by (simp add: exampleHeap_def mkRow_def)
  have p2: "close (fst (ffill [0, 1, 2] (exampleHeap, noIssues)) 2) = Some 10
      \<and> volume (fst (ffill [0, 1, 2] (exampleHeap, noIssues)) 2) = Some 8"
    using p1 p [of 2] by (simp add: exampleHeap_def mkRow_def)
  have n3: "nulls (snd (ffill [0, 1, 2] (exampleHeap, noIssues))) = 3"
    unfolding n by (simp add: exampleHeap_def mkRow_def noIssues_def upt_conv_Cons)
  show ?thesis using example_dates p0 p1 p2 n3 by simp
qed

lemma length_filter_sum: "length (filter P xs) = (\<Sum>x\<leftarrow>xs. if P x then 1 else 0)"
  by (induction xs) simp_all

lemma filter_pos_upt: "filter (\<lambda>j. 0 < j \<and> P j) [0..<n] = filter P [1..<n]"
proof (cases n)
  case 0
  then show ?thesis by simp
next
  case (Suc k)
  have "[0..<Suc k] = 0 # [1..<Suc k]" by (simp add: upt_conv_Cons)
  moreover have "filter (\<lambda>j. 0 < j \<and> P j) [1..<Suc k] = filter P [1..<Suc k]"
    by (rule filter_cong) auto
  ultimately show ?thesis using Suc by simp
qed

text \<open>
  Claim C10. The counter \<open>nulls\<close> counts filled fields, not rows. On a deduplicated series
  the forward fill adds to it, for every row at an index \<open>i > 0\<close>, \<open>1\<close> if the close of the
  row is null plus \<open>1\<close> if its volume is null: a row with both null adds \<open>2\<close>.
\<close>

theorem nulls_counts_fields:
  assumes "distinct (map (\<lambda>a. date (h a)) cleaned)"
  shows "nulls (snd (ffill cleaned (h, iss)))
       = nulls iss + (\<Sum>i\<leftarrow>[1..<length cleaned].
                        (if close (h (cleaned ! i)) = None then 1 else 0)
                      + (if volume (h (cleaned ! i)) = None then 1 else 0))"
proof -
  have d: "distinct cleaned" using assms by (simp add: distinct_map)
  have "snd (ffill cleaned (h, iss)) = iss\<lparr>nulls := nulls iss
            + length (filter (\<lambda>j. 0 < j \<and> close (h (cleaned ! j)) = None) [0..<length cleaned])
            + length (filter (\<lambda>j. 0 < j \<and> volume (h (cleaned ! j)) = None) [0..<length cleaned])\<rparr>"
    using ffill_char [OF d, of h iss] by (elim conjE)
  then have "nulls (snd (ffill cleaned (h, iss))) = nulls iss
            + length (filter (\<lambda>j. close (h (cleaned ! j)) = None) [1..<length cleaned])
            + length (filter (\<lambda>j. volume (h (cleaned ! j)) = None) [1..<length cleaned])"
    by (simp add: filter_pos_upt)
  then show ?thesis by (simp add: length_filter_sum sum_list_addf)
qed

lemma example_upt: "[1..<length [0, 1, 2::nat]] = [1, 2]"
  by (simp add: upt_conv_Cons)

theorem nulls_counts_fields_witness:
  "distinct (map (\<lambda>a. date (exampleHeap a)) [0, 1, 2])
   \<and> length (filter (\<lambda>a. close (exampleHeap a) = None \<or> volume (exampleHeap a) = None)
        [0, 1, 2]) = 2
   \<and> nulls (snd (ffill [0, 1, 2] (exampleHeap, noIssues))) = 3"
proof -
  have "nulls (snd (ffill [0, 1, 2] (exampleHeap, noIssues))) = 3"
    unfolding nulls_counts_fields [OF example_dates, of noIssues] example_upt
    by (simp add: exampleHeap_def mkRow_def noIssues_def)
  moreover have "length (filter (\<lambda>a. close (exampleHeap a) = None \<or> volume (exampleHeap a) = None)
        [0, 1, 2]) = 2"
    by (simp add: exampleHeap_def mkRow_def)
  ultimately show ?thesis using example_dates by simp
qed

lemma dedup_dates:
  "distinct (map (\<lambda>a. date (h a)) (fst (dedup h seen iss raw)))
   \<and> (\<forall>a \<in> set (fst (dedup h seen iss raw)). date (h a) \<notin> seen)"
proof (induction raw arbitrary: seen iss)
  case Nil
  show ?case by simp
next
  case (Cons r rs)
  show ?case
  proof (cases "date (h r) \<in> seen")
    case True
    then show ?thesis using Cons.IH [of seen "iss\<lparr>duplicates := duplicates iss + 1\<rparr>"] by simp
  next
    case False
    let ?out = "fst (dedup h (insert (date (h r)) seen) iss rs)"
    have e: "fst (dedup h seen iss (r # rs)) = r # ?out"
      using False by (simp add: case_prod_beta)
    note ih = Cons.IH [of "insert (date (h r)) seen" iss]
    have "date (h r) \<notin> set (map (\<lambda>a. date (h a)) ?out)" using ih by auto
    then show ?thesis unfolding e using ih False by auto
  qed
qed

text \<open>
  Claim C2 on a two-row input. \<open>[...rawData]\<close> and \<open>filter\<close> copy the array, not the rows,
  so the assignments of the forward-fill loop write into the caller's row objects: the raw
  row at address \<open>1\<close> has a null close and a null volume before \<open>cleanData\<close> and the values
  of its predecessor afterwards.
\<close>

theorem cleanData_mutates_raw:
  "close (exampleHeap 1) = None \<and> volume (exampleHeap 1) = None
   \<and> close (fst (cleanData exampleHeap [0, 1]) 1) = Some 10
   \<and> volume (fst (cleanData exampleHeap [0, 1]) 1) = Some 5"
  by (simp add: cleanData_def exampleHeap_def mkRow_def ffill_def ffill_step_def Let_def
      case_prod_beta)

section \<open>Cleaning engine: outlier correction\<close>

lemma slice_nth: "e \<le> length xs \<Longrightarrow> jsSlice s e xs = map ((!) xs) [s..<e]"
  unfolding jsSlice_def by (rule nth_equalityI) auto

lemma winMedian_eq:
  "winMedian cleaned i
   = sort_key toNum (map close (map ((!) cleaned) [i - 2..<min (length cleaned) (i + 3)]))
       ! (length (map ((!) cleaned) [i - 2..<min (length cleaned) (i + 3)]) div 2)"
proof -
  have "jsSlice (max 0 (i - 2)) (min (length cleaned) (i + 3)) cleaned
      = map ((!) cleaned) [i - 2..<min (length cleaned) (i + 3)]"
    by (simp add: slice_nth)
  then show ?thesis unfolding winMedian_def Let_def by (simp only:)
qed

lemma outlier_fold:
  "k \<le> length cleaned \<Longrightarrow>
   foldl (outlier_step cleaned med mad) (out, iss) [0..<k]
   = (out @ map (\<lambda>i. if zscore med mad (cleaned ! i) > 35 / 10
                       then (cleaned ! i)\<lparr>close := winMedian cleaned i\<rparr> else cleaned ! i) [0..<k],
      iss\<lparr>outliers := outliers iss
           + length (filter (\<lambda>i. zscore med mad (cleaned ! i) > 35 / 10) [0..<k])\<rparr>)"
proof (induction k)
  case 0
  show ?case by simp
next
  case (Suc k)
  then show ?case by (simp add: outlier_step_def Let_def)
qed

lemma sort_nth_nonneg:
  "\<forall>d \<in> set ds. 0 \<le> d \<Longrightarrow> ds \<noteq> [] \<Longrightarrow> (0::real) \<le> sort ds ! (length ds div 2)"
proof -
  assume nn: "\<forall>d \<in> set ds. 0 \<le> d" and ne: "ds \<noteq> []"
  have "length ds div 2 < length (sort ds)" using ne by simp
  then have "sort ds ! (length ds div 2) \<in> set (sort ds)" by (rule nth_mem)
  then show ?thesis using nn by simp
qed

text \<open>
  Claim C3. Here the median of an array is what the code takes: the element at index
  \<open>floor (length / 2)\<close> of the array sorted stably by numeric value (the upper middle one
  for an even length), and every subtraction and division is rounded as the program does.
  On a non-empty series of \<open>n\<close> rows the pass uses one \<open>med\<close>, the median of all closes,
  and one \<open>mad\<close>: the median \<open>d\<close> of the absolute deviations \<open>|close - med|\<close> of all rows,
  replaced by \<open>1\<close> when it is \<open>0\<close>; \<open>mad\<close> is positive. The result has \<open>n\<close> rows; the row at
  index \<open>i\<close> has its close replaced by the median of the closes of the input rows
  \<open>i - 2 .. i + 2\<close> (clipped to the series) if its score \<open>|(close - med) / mad|\<close> exceeds
  \<open>3.5\<close>, and is the input row otherwise; the counter grows by the number of rows so
  replaced. \<open>med\<close>, \<open>mad\<close> and every window are taken from the input of the pass, never
  from a corrected row.
\<close>

theorem fixOutliers_global_median:
  fixes cleaned :: "row list" and iss :: issues
  assumes "cleaned \<noteq> []"
  defines "n \<equiv> length cleaned"
  defines "med \<equiv> toNum (sort_key toNum (map close cleaned) ! (n div 2))"
  defines "d \<equiv> sort (map (\<lambda>r. \<bar>fl64 (toNum (close r) - med)\<bar>) cleaned) ! (n div 2)"
  defines "mad \<equiv> (if d = 0 then 1 else d)"
  defines "z \<equiv> \<lambda>r. \<bar>fl64 (fl64 (toNum (close r) - med) / mad)\<bar>"
  defines "win \<equiv> \<lambda>i. map ((!) cleaned) [i - 2..<min n (i + 3)]"
  shows "0 < mad
     \<and> length (fst (fixOutliers cleaned iss)) = n
     \<and> (\<forall>i<n.
          (35 / 10 < z (cleaned ! i) \<longrightarrow>
             fst (fixOutliers cleaned iss) ! i
             = (cleaned ! i)\<lparr>close :=
                 sort_key toNum (map close (win i)) ! (length (win i) div 2)\<rparr>)
        \<and> (z (cleaned ! i) \<le> 35 / 10 \<longrightarrow>
             fst (fixOutliers cleaned iss) ! i = cleaned ! i))
     \<and> outliers (snd (fixOutliers cleaned iss)) = outliers iss
          + length (filter (\<lambda>i. 35 / 10 < z (cleaned ! i)) [0..<n])
     \<and> nulls (snd (fixOutliers cleaned iss)) = nulls iss
     \<and> duplicates (snd (fixOutliers cleaned iss)) = duplicates iss"
proof -
  let ?median = "jsMedian (map close cleaned)"
  have median: "toNum ?median = med"
    using assms(1) by (simp add: jsMedian_def med_def n_def)
  have dev: "map (\<lambda>v. \<bar>fl64 (toNum v - toNum ?median)\<bar>) (map close cleaned)
           = map (\<lambda>r. \<bar>fl64 (toNum (close r) - med)\<bar>) cleaned"
    unfolding median by simp
  have d0: "0 \<le> d"
    unfolding d_def n_def
    using sort_nth_nonneg [of "map (\<lambda>r. \<bar>fl64 (toNum (close r) - med)\<bar>) cleaned"] assms(1)
    by simp
  have pos: "0 < mad" using d0 by (simp add: mad_def)
  have mad: "madOr1 (map (\<lambda>r. \<bar>fl64 (toNum (close r) - med)\<bar>) cleaned) = mad"
    using assms(1) by (simp add: madOr1_def Let_def mad_def d_def n_def)
  have z: "\<And>r. zscore ?median mad r = z r"
    by (simp add: zscore_def z_def median)
  have e: "fixOutliers cleaned iss
     = (map (\<lambda>i. if 35 / 10 < z (cleaned ! i)
                       then (cleaned ! i)\<lparr>close := winMedian cleaned i\<rparr> else cleaned ! i)
           [0..<length cleaned],
        iss\<lparr>outliers := outliers iss
           + length (filter (\<lambda>i. 35 / 10 < z (cleaned ! i)) [0..<length cleaned])\<rparr>)"
    unfolding fixOutliers_def Let_def dev mad
    using outlier_fold [of "length cleaned" cleaned ?median mad "[]" iss]
    by (simp add: z)
  have w: "\<And>i. winMedian cleaned i
        = sort_key toNum (map close (win i)) ! (length (win i) div 2)"
    unfolding win_def n_def by (rule winMedian_eq)
  show ?thesis
    unfolding e fst_conv snd_conv w using pos by (simp add: n_def)
qed

lemma wobble_len: "6 < length wobbleSeries" "4 < length wobbleSeries" "wobbleSeries \<noteq> []"
  by (simp_all add: wobbleSeries_def)

lemma flat_len: "4 < length flatSeries" "flatSeries \<noteq> []"
  by (simp_all add: flatSeries_def)

theorem fixOutliers_global_median_witness:
  "close (fst (fixOutliers wobbleSeries noIssues) ! 6) = Some 18
   \<and> fst (fixOutliers wobbleSeries noIssues) ! 4 = wobbleSeries ! 4
   \<and> outliers (snd (fixOutliers wobbleSeries noIssues)) = 1
   \<and> close (fst (fixOutliers flatSeries noIssues) ! 4) = Some 5
   \<and> outliers (snd (fixOutliers flatSeries noIssues)) = 1"
proof -
  note t = fixOutliers_global_median [OF wobble_len(3), of noIssues]
  note p = t [THEN conjunct2, THEN conjunct2, THEN conjunct1, rule_format]
  note c = t [THEN conjunct2, THEN conjunct2, THEN conjunct2, THEN conjunct1]
  have a6: "close (fst (fixOutliers wobbleSeries noIssues) ! 6) = Some 18"
    using p [OF wobble_len(1), THEN conjunct1]
    by (simp add: wobbleSeries_def mkRow_def fl64_simps upt_conv_Cons)
  have a4: "fst (fixOutliers wobbleSeries noIssues) ! 4 = wobbleSeries ! 4"
    using p [OF wobble_len(2), THEN conjunct2]
    by (simp add: wobbleSeries_def mkRow_def fl64_simps)
  have ac: "outliers (snd (fixOutliers wobbleSeries noIssues)) = 1"
    unfolding c by (simp add: wobbleSeries_def mkRow_def fl64_simps upt_conv_Cons noIssues_def)
  note t' = fixOutliers_global_median [OF flat_len(2), of noIssues]
  note p' = t' [THEN conjunct2, THEN conjunct2, THEN conjunct1, rule_format]
  note c' = t' [THEN conjunct2, THEN conjunct2, THEN conjunct2, THEN conjunct1]
  have b4: "close (fst (fixOutliers flatSeries noIssues) ! 4) = Some 5"
    using p' [OF flat_len(1), THEN conjunct1]
    by (simp add: flatSeries_def mkRow_def fl64_simps upt_conv_Cons)
  have bc: "outliers (snd (fixOutliers flatSeries noIssues)) = 1"
    unfolding c' by (simp add: flatSeries_def mkRow_def fl64_simps upt_conv_Cons noIssues_def)
  show ?thesis using a6 a4 ac b4 bc by simp
qed

end
